theory Spec2Isabelle
  imports Complex_Main "HOL-Library.AList" "HOL-Library.Sublist" "HOL-Library.Multiset"
begin

section \<open>Strings of the kiosk agent\<close>

text \<open>
  The agent of \<^verbatim>\<open>src/pages/api/agent.ts\<close> works on JavaScript strings. They are modelled
  as \<^typ>\<open>string\<close>, one \<^typ>\<open>char\<close> per code unit, so the utterances covered are those
  written in Latin-1 (code units 0 to 255), which holds every Spanish letter the source
  matches on: \<open>i-acute\<close> is \<open>CHR 0xED\<close>, \<open>o-acute\<close> is \<open>CHR 0xF3\<close>, \<open>a-acute\<close> is \<open>CHR 0xE1\<close>.
\<close>

definition code_unit :: "char \<Rightarrow> nat" where
  "code_unit c = of_char c"

text \<open>\<^verbatim>\<open>String.prototype.toLowerCase\<close> on Latin-1: A-Z and the accented capitals
  (0xC0-0xDE without the multiplication sign 0xD7) move up by 32.\<close>

definition lower_char :: "char \<Rightarrow> char" where
  "lower_char c =
     (let n = code_unit c
      in if (65 \<le> n \<and> n \<le> 90) \<or> (192 \<le> n \<and> n \<le> 222 \<and> n \<noteq> 215)
         then char_of (n + 32) else c)"

definition toLowerCase :: "string \<Rightarrow> string" where
  "toLowerCase s = map lower_char s"

text \<open>White space of \<^verbatim>\<open>trim()\<close> and of the regular expression class \<^verbatim>\<open>\s\<close>, within
  Latin-1: tab, line feed, vertical tab, form feed, carriage return, space, no-break space.\<close>

definition is_space :: "char \<Rightarrow> bool" where
  "is_space c = (code_unit c \<in> {9, 10, 11, 12, 13, 32, 160})"

definition trim :: "string \<Rightarrow> string" where
  "trim s = rev (dropWhile is_space (rev (dropWhile is_space s)))"

text \<open>The class \<^verbatim>\<open>\d\<close> and the word characters \<^verbatim>\<open>\w\<close> = \<^verbatim>\<open>[A-Za-z0-9_]\<close>.\<close>

definition is_digit :: "char \<Rightarrow> bool" where
  "is_digit c = (48 \<le> code_unit c \<and> code_unit c \<le> 57)"

definition is_word :: "char \<Rightarrow> bool" where
  "is_word c =
     (let n = code_unit c
      in (48 \<le> n \<and> n \<le> 57) \<or> (65 \<le> n \<and> n \<le> 90) \<or> n = 95 \<or> (97 \<le> n \<and> n \<le> 122))"

text \<open>\<^verbatim>\<open>s.includes(k)\<close>: \<open>k\<close> occurs in \<open>s\<close> as a contiguous run.\<close>

fun str_includes :: "string \<Rightarrow> string \<Rightarrow> bool" where
  "str_includes [] k = (k = [])"
| "str_includes (c # cs) k = (prefix k (c # cs) \<or> str_includes cs k)"

text \<open>A regular expression that is an alternation of literals, tested anywhere in the
  string: \<^verbatim>\<open>/a|b|c/.test(s)\<close>; with the flag \<^verbatim>\<open>i\<close> the test is made on the lower-cased
  string (the literals of the source are lower case).\<close>

definition test_any :: "string list \<Rightarrow> string \<Rightarrow> bool" where
  "test_any alts s = list_ex (str_includes s) alts"

definition itest_any :: "string list \<Rightarrow> string \<Rightarrow> bool" where
  "itest_any alts s = test_any alts (toLowerCase s)"

text \<open>\<^verbatim>\<open>s.normalize("NFD").replace(/\p{Diacritic}/gu, "")\<close> on Latin-1: an accented
  letter decomposes into its base letter and a combining mark, which is removed; the
  spacing marks with the property Diacritic (circumflex, grave, diaeresis, macron, acute,
  middle dot, cedilla) are removed too. Modelled from the Unicode character data of the
  JavaScript runtime, which is not part of the repository.\<close>

definition strip_char :: "char \<Rightarrow> string" where
  "strip_char c =
     (let n = code_unit c in
      if n \<in> {94, 96, 168, 175, 180, 183, 184} then []
      else if 192 \<le> n \<and> n \<le> 197 then ''A''
      else if n = 199 then ''C''
      else if 200 \<le> n \<and> n \<le> 203 then ''E''
      else if 204 \<le> n \<and> n \<le> 207 then ''I''
      else if n = 209 then ''N''
      else if 210 \<le> n \<and> n \<le> 214 then ''O''
      else if 217 \<le> n \<and> n \<le> 220 then ''U''
      else if n = 221 then ''Y''
      else if 224 \<le> n \<and> n \<le> 229 then ''a''
      else if n = 231 then ''c''
      else if 232 \<le> n \<and> n \<le> 235 then ''e''
      else if 236 \<le> n \<and> n \<le> 239 then ''i''
      else if n = 241 then ''n''
      else if 242 \<le> n \<and> n \<le> 246 then ''o''
      else if 249 \<le> n \<and> n \<le> 252 then ''u''
      else if n = 253 \<or> n = 255 then ''y''
      else [c])"

definition strip_diacritics :: "string \<Rightarrow> string" where
  "strip_diacritics s = concat (map strip_char s)"

text \<open>The assertion \<^verbatim>\<open>\b\<close> between two neighbouring positions (\<open>None\<close> is the start
  or the end of the string).\<close>

definition is_word_opt :: "char option \<Rightarrow> bool" where
  "is_word_opt c = (case c of None \<Rightarrow> False | Some x \<Rightarrow> is_word x)"

definition word_boundary :: "char option \<Rightarrow> char option \<Rightarrow> bool" where
  "word_boundary a b = (is_word_opt a \<noteq> is_word_opt b)"

definition first_char :: "string \<Rightarrow> char option" where
  "first_char s = (case s of [] \<Rightarrow> None | c # _ \<Rightarrow> Some c)"

definition last_char :: "string \<Rightarrow> char option" where
  "last_char s = first_char (rev s)"

text \<open>The literal \<open>k\<close> (not empty) stands at the head of \<open>s\<close> and \<^verbatim>\<open>\b\<close> holds after it.\<close>

definition lit_then_boundary :: "string \<Rightarrow> string \<Rightarrow> bool" where
  "lit_then_boundary k s =
     (prefix k s \<and> word_boundary (last_char k) (first_char (drop (length k) s)))"

text \<open>\<^verbatim>\<open>/(k1|k2|...)\b/.test(s)\<close>, and with \<open>lead\<close> the expression
  \<^verbatim>\<open>/\b(k1|k2|...)\b/\<close>; \<open>prev\<close> is the character before the position tried.\<close>

fun test_bounded :: "bool \<Rightarrow> string list \<Rightarrow> char option \<Rightarrow> string \<Rightarrow> bool" where
  "test_bounded lead alts prev [] = False"
| "test_bounded lead alts prev (c # cs) =
     (((\<not> lead \<or> word_boundary prev (Some c)) \<and> list_ex (\<lambda>k. lit_then_boundary k (c # cs)) alts)
      \<or> test_bounded lead alts (Some c) cs)"

section \<open>Intent classifier\<close>

text \<open>\<^verbatim>\<open>endIntent\<close>: the trimmed, lower-cased utterance is one of the closing phrases,
  with an optional final full stop.\<close>

definition end_phrases :: "string list" where
  "end_phrases =
     [''no'', ''no gracias'', ''eso es todo'', ''listo'', ''estoy bien'', ''nada mas'',
      ''nada m'' @ [CHR 0xE1] @ ''s'']"

definition endIntent :: "string \<Rightarrow> bool" where
  "endIntent txt =
     (let s = trim (toLowerCase txt)
      in list_ex (\<lambda>p. s = p \<or> s = p @ ''.'') end_phrases)"

definition replaceIntent :: "string \<Rightarrow> bool" where
  "replaceIntent txt =
     test_bounded False
       [''mejor'', ''prefiero'', ''cambial'', ''cambia'', ''en lugar de'', ''en vez de'',
        ''mejor pon'', ''mejor usa'']
       None (strip_diacritics (toLowerCase txt))"

definition removeIntent :: "string \<Rightarrow> bool" where
  "removeIntent txt =
     test_bounded False [''quita'', ''remueve'', ''borra'', ''elimina'', ''saca'', ''sin'']
       None (toLowerCase txt)"

definition addIntent :: "string \<Rightarrow> bool" where
  "addIntent txt =
     test_bounded True
       [''si'', ''agrega'', ''agregalo'', ''anade'', ''ponlo'', ''sumalo'', ''dame'',
        ''me lo llevo'', ''tambien'', ''incluyelo'', ''mete'']
       None (strip_diacritics (toLowerCase txt))"

section \<open>Query normalisation\<close>

text \<open>The first match of \<^verbatim>\<open>/\b(\d+\s*\/\s*\d+)\b/\<close>, with its white space removed.
  \<open>frac_here\<close> tries the expression at the head of the string (a digit that starts a
  word); both runs of digits are maximal, since \<^verbatim>\<open>\b\<close> cannot hold between two digits.\<close>

definition frac_here :: "string \<Rightarrow> string option" where
  "frac_here s =
     (let d1 = takeWhile is_digit s;
          r1 = dropWhile is_space (dropWhile is_digit s)
      in case r1 of
           [] \<Rightarrow> None
         | c # r2 \<Rightarrow>
             if c \<noteq> CHR ''/'' then None
             else let r3 = dropWhile is_space r2;
                      d2 = takeWhile is_digit r3;
                      r4 = dropWhile is_digit r3
                  in if d1 \<noteq> [] \<and> d2 \<noteq> [] \<and> \<not> is_word_opt (first_char r4)
                     then Some (d1 @ ''/'' @ d2) else None)"

fun find_frac :: "char option \<Rightarrow> string \<Rightarrow> string option" where
  "find_frac prev [] = None"
| "find_frac prev (c # cs) =
     (if is_digit c \<and> \<not> is_word_opt prev
      then (case frac_here (c # cs) of
              Some f \<Rightarrow> Some f
            | None \<Rightarrow> find_frac (Some c) cs)
      else find_frac (Some c) cs)"

text \<open>\<^verbatim>\<open>Array.from(new Set(t))\<close>: the first occurrence of each element stays.\<close>

fun dedupe :: "'a list \<Rightarrow> 'a list" where
  "dedupe [] = []"
| "dedupe (x # xs) = x # dedupe (filter (\<lambda>y. y \<noteq> x) xs)"

fun join_space :: "string list \<Rightarrow> string" where
  "join_space [] = []"
| "join_space [x] = x"
| "join_space (x # y # ys) = x @ '' '' @ join_space (y # ys)"

definition push_if :: "bool \<Rightarrow> 'a \<Rightarrow> 'a list \<Rightarrow> 'a list" where
  "push_if b x t = (if b then t @ [x] else t)"

definition normalizeQuery :: "string \<Rightarrow> string" where
  "normalizeQuery q =
     (let s = toLowerCase q;
          t = push_if (str_includes s ''pvc'') ''pvc'' [];
          t = push_if (str_includes s ''cpvc'') ''cpvc'' t;
          t = push_if (str_includes s ''cobre'') ''cobre'' t;
          t = push_if (str_includes s ''pex'') ''pex'' t;
          t = push_if (str_includes s ''tablaroca'' \<or> str_includes s ''drywall'') ''tablaroca'' t;
          t = push_if (str_includes s ''madera'') ''madera'' t;
          t = (case find_frac None s of Some f \<Rightarrow> t @ [f] | None \<Rightarrow> t);
          t = push_if (str_includes s ''media'') ''1/2'' t;
          t = push_if (str_includes s ''tres cuartos'') ''3/4'' t;
          t = push_if (str_includes s ''un cuarto'' \<or> str_includes s ''cuarto'') ''1/4'' t;
          t = push_if (str_includes s ''tres octavos'') ''3/8'' t;
          t = push_if (str_includes s ''cinco octavos'') ''5/8'' t;
          t = push_if (str_includes s ''una pulgada'' \<or> str_includes s ''1 pulgada''
                       \<or> str_includes s [CHR ''1'', CHR 0x22]) [CHR ''1'', CHR 0x22] t;
          t = push_if (str_includes s ''media pulgada'') ''1/2'' t;
          compact = trim (join_space (dedupe t))
      in if compact = [] then q else compact)"

section \<open>Data model\<close>

text \<open>A product row of the catalogue and a basket line share the fields that the agent
  copies from the one into the other; a line adds the quantity and the justification.
  The text columns are strings (a \<^verbatim>\<open>null\<close> column reads as the empty string, which no
  pattern of the source tells apart), the price is carried along unchanged.\<close>

text \<open>Quantities. A JavaScript number is an integer or \<^verbatim>\<open>NaN\<close> here (fractions and
  infinities are left out). The request body and the generated plan are untyped JSON, so
  the value in the place of a quantity is taken by what the handler observes of it: whether
  it is nullish (absent or \<^verbatim>\<open>null\<close>, where \<^verbatim>\<open>??\<close> falls through), whether it is truthy
  (for \<^verbatim>\<open>||\<close>), and what \<^verbatim>\<open>Number()\<close> makes of it. The number \<open>n\<close> is
  \<open>JVal (n \<noteq> 0) (JNum n)\<close>, the string \<^verbatim>\<open>"3"\<close> is \<open>JVal True (JNum 3)\<close>, the empty string
  is \<open>JVal False (JNum 0)\<close>, a string that is no numeral such as \<^verbatim>\<open>"dos"\<close>, or an object, is
  \<open>JVal True JNaN\<close>, and \<^verbatim>\<open>NaN\<close> itself is \<open>JVal False JNaN\<close>.\<close>

datatype jsnum = JNum int | JNaN

datatype jsvalue = Nullish | JVal bool jsnum

definition number :: "int \<Rightarrow> jsvalue" where
  "number n = JVal (n \<noteq> 0) (JNum n)"

definition of_jsnum :: "jsnum \<Rightarrow> jsvalue" where
  "of_jsnum x = (case x of JNum n \<Rightarrow> number n | JNaN \<Rightarrow> JVal False JNaN)"

text \<open>\<^verbatim>\<open>Math.max(1, x)\<close>: \<^verbatim>\<open>NaN\<close> stays \<^verbatim>\<open>NaN\<close>.\<close>

definition max_one :: "jsnum \<Rightarrow> jsnum" where
  "max_one x = (case x of JNum n \<Rightarrow> JNum (max 1 n) | JNaN \<Rightarrow> JNaN)"

text \<open>The truth value of a number: 0 and \<^verbatim>\<open>NaN\<close> are falsy.\<close>

definition truthy :: "jsnum \<Rightarrow> bool" where
  "truthy x = (case x of JNum n \<Rightarrow> n \<noteq> 0 | JNaN \<Rightarrow> False)"

text \<open>\<^verbatim>\<open>Number(v || 1)\<close> and \<^verbatim>\<open>Number(v ?? 1)\<close>.\<close>

definition number_or_one :: "jsvalue \<Rightarrow> jsnum" where
  "number_or_one v = (case v of Nullish \<Rightarrow> JNum 1 | JVal t n \<Rightarrow> if t then n else JNum 1)"

definition number_nullish_one :: "jsvalue \<Rightarrow> jsnum" where
  "number_nullish_one v = (case v of Nullish \<Rightarrow> JNum 1 | JVal t n \<Rightarrow> n)"

record item =
  sku :: string
  name :: string
  price :: rat
  currency :: string
  stock :: int
  image_url :: string

record product = item +
  brand :: string
  category :: string
  subcategory :: string
  description :: string

record line = item +
  qty :: jsvalue
  why :: string

text \<open>\<^verbatim>\<open>type CartItem = { sku: string; qty?: number }\<close>\<close>

record cart_item =
  cart_sku :: string
  cart_qty :: jsvalue

text \<open>The plan that is returned, and the object parsed from the text of the generative
  step: its arrays are untrusted, so they may be absent or no array at all (\<open>None\<close>)
  and may hold \<^verbatim>\<open>null\<close> entries.\<close>

record plan =
  title :: "string option"
  steps :: "string list option"
  basket :: "line list"
  upsell :: "line list"
  confirm :: "string option"

record proposal =
  raw_title :: "string option"
  raw_steps :: "string list option"
  raw_basket :: "line option list option"
  raw_upsell :: "line option list option"
  raw_confirm :: "string option"
  raw_reply :: "string option"

text \<open>\<^verbatim>\<open>JSON.parse\<close> of the generated text either throws or yields the object.\<close>

datatype generated = Malformed | Parsed proposal

text \<open>A JavaScript \<^verbatim>\<open>Map\<close> keeps its keys in the order of their first insertion and
  \<^verbatim>\<open>set\<close> overwrites the value of a key in place: an association list with
  \<^const>\<open>AList.update\<close>, read with \<^const>\<open>map_of\<close>.\<close>

type_synonym 'v js_map = "(string \<times> 'v) list"

text \<open>\<^verbatim>\<open>a || d\<close> on an optional string: the empty string is falsy too.\<close>

definition or_else :: "string option \<Rightarrow> string \<Rightarrow> string" where
  "or_else a d = (case a of None \<Rightarrow> d | Some s \<Rightarrow> if s = [] then d else s)"

section \<open>Keyword fallback picker\<close>

definition keyword_groups :: "string list list" where
  "keyword_groups =
     [[''union'', ''uni'' @ [CHR 0xF3] @ ''n'', ''roscada''],
      [''teflon'', ''tefl'' @ [CHR 0xF3] @ ''n'', ''ptf'', ''ptfe'', ''cinta''],
      [''cople'', ''acople'', ''empalme''],
      [''cortatubo'', ''corta tubo''],
      [''repuesto'', ''disco'', ''cuchilla''],
      [''pegamento'', ''cemento'', ''adhesivo'', ''pvc''],
      [''primer'', ''limpiador'']]"

definition pick_text :: "string \<Rightarrow> string \<Rightarrow> string" where
  "pick_text q qNorm = toLowerCase (q @ '' '' @ qNorm)"

definition hay :: "product \<Rightarrow> string" where
  "hay c =
     toLowerCase (name c @ '' '' @ description c @ '' '' @ category c @ '' '' @ subcategory c)"

text \<open>The loop over the groups: 2 for every group with a member in the utterance text and a
  member in the candidate's text, then 1 for a candidate in stock.\<close>

definition score_of :: "string \<Rightarrow> product \<Rightarrow> int" where
  "score_of txt c =
     (let score = foldl (\<lambda>sc group.
                     if test_any group txt \<and> test_any group (hay c) then sc + 2 else sc)
                   0 keyword_groups
      in if stock c > 0 then score + 1 else score)"

text \<open>\<^verbatim>\<open>Array.prototype.sort\<close> is stable; the comparator \<^verbatim>\<open>b.score - a.score\<close> orders by
  falling score, which is \<^const>\<open>sort_key\<close> on the negated score. The cap \<open>mx\<close> is a
  natural number (the source passes 3).\<close>

definition pickByKeywords :: "string \<Rightarrow> string \<Rightarrow> product list \<Rightarrow> nat \<Rightarrow> product list" where
  "pickByKeywords q qNorm candidates mx =
     (let txt = pick_text q qNorm;
          scored = map (\<lambda>c. (c, score_of txt c)) candidates
      in map fst (take mx (sort_key (\<lambda>s. - snd s) (filter (\<lambda>s. snd s > 0) scored))))"

section \<open>Basket reconciliation\<close>

subsection \<open>Candidate set and client cart\<close>

text \<open>\<^verbatim>\<open>bySku\<close> is filled by \<^verbatim>\<open>bySku.set(p.sku, p)\<close> over the rows that the searches
  returned; \<^verbatim>\<open>candidates\<close> are its values and \<^verbatim>\<open>candidateSkus\<close> their SKUs.\<close>

definition bySku_of :: "product list \<Rightarrow> product js_map" where
  "bySku_of rows = foldl (\<lambda>m p. AList.update (sku p) p m) [] rows"

definition candidates_of :: "product js_map \<Rightarrow> product list" where
  "candidates_of bySku = map snd bySku"

definition candidateSkus_of :: "product js_map \<Rightarrow> string set" where
  "candidateSkus_of bySku = set (map sku (candidates_of bySku))"

text \<open>\<^verbatim>\<open>cartBySku.set(ci.sku, Math.max(1, Number(ci.qty || 1)))\<close>: a missing quantity and
  the quantity 0 are falsy and count as 1; a truthy value that is no number is stored as
  \<^verbatim>\<open>NaN\<close>.\<close>

definition cart_qty_of :: "cart_item \<Rightarrow> jsnum" where
  "cart_qty_of ci = max_one (number_or_one (cart_qty ci))"

definition cartBySku_of :: "cart_item list \<Rightarrow> jsnum js_map" where
  "cartBySku_of cart = foldl (\<lambda>m ci. AList.update (cart_sku ci) (cart_qty_of ci) m) [] cart"

text \<open>The products table behind the point lookups \<^verbatim>\<open>.in("sku", skus)\<close> and
  \<^verbatim>\<open>.eq("sku", s).limit(1).maybeSingle()\<close>, read as one snapshot during a turn.\<close>

definition fetch_in :: "string list \<Rightarrow> product list \<Rightarrow> product list" where
  "fetch_in skus products = filter (\<lambda>p. sku p \<in> set skus) products"

definition fetch_eq :: "string \<Rightarrow> product list \<Rightarrow> product option" where
  "fetch_eq s products = find (\<lambda>p. sku p = s) products"

subsection \<open>Validation filter and quantity reassertion\<close>

definition filterToCandidates :: "string set \<Rightarrow> line option list option \<Rightarrow> line list" where
  "filterToCandidates candidateSkus arr =
     (case arr of
        None \<Rightarrow> []
      | Some xs \<Rightarrow>
          List.map_filter
            (\<lambda>x. case x of None \<Rightarrow> None
                  | Some l \<Rightarrow> if sku l \<in> candidateSkus then Some l else None) xs)"

text \<open>\<^verbatim>\<open>it.qty = Math.max(1, Number(cartQty ?? it.qty ?? 1))\<close>\<close>

definition prefer_client_qty :: "jsnum js_map \<Rightarrow> line \<Rightarrow> line" where
  "prefer_client_qty cartBySku it =
     it\<lparr>qty := of_jsnum (max_one (case map_of cartBySku (sku it) of
                                   Some c \<Rightarrow> c
                                 | None \<Rightarrow> number_nullish_one (qty it)))\<rparr>"

text \<open>The object literal that every server-side rule pushes: the product's fields, a
  quantity and a justification.\<close>

definition new_line :: "string \<Rightarrow> product \<Rightarrow> jsnum \<Rightarrow> string \<Rightarrow> line" where
  "new_line s src n w =
     \<lparr>sku = s, name = name src, price = price src, currency = currency src,
      stock = stock src, image_url = image_url src, qty = of_jsnum n, why = w\<rparr>"

definition has_sku :: "string \<Rightarrow> line list \<Rightarrow> bool" where
  "has_sku s xs = list_ex (\<lambda>x. sku x = s) xs"

subsection \<open>Vocabulary and fixed texts\<close>

definition spare_words :: "string list" where
  "spare_words = [''repuesto'', ''disco'', ''cuchilla'']"

definition teflon_words :: "string list" where
  "teflon_words = [''teflon'', ''tefl'' @ [CHR 0xF3] @ ''n'', ''ptfe'', ''ptf'']"

definition cutter_words :: "string list" where
  "cutter_words = [''cortatubo'', ''corta tubo'']"

text \<open>The expression for the union reads \<^verbatim>\<open>un\<close>, then \<^verbatim>\<open>i\<close> or i-acute, then \<^verbatim>\<open>on\<close>, or \<^verbatim>\<open>roscada\<close>:
  the accented alternative of the source is the i-acute (0xED), not the o-acute.\<close>

definition union_words :: "string list" where
  "union_words = [''union'', ''un'' @ [CHR 0xED] @ ''on'', ''roscada'']"

definition mentionsAlternates :: "string \<Rightarrow> bool" where
  "mentionsAlternates q = itest_any (union_words @ teflon_words @ spare_words) q"

definition why_kept :: string where
  "why_kept = ''Conservado de tu selecci'' @ [CHR 0xF3] @ ''n previa.''"

definition why_spare :: string where
  "why_spare = ''Agregado a tu pedido como repuesto del cortatubo.''"

definition why_teflon :: string where
  "why_teflon = ''Agregado para sellar roscas (cinta de tefl'' @ [CHR 0xF3] @ ''n).''"

definition why_preference :: string where
  "why_preference = ''Seleccionado seg'' @ [CHR 0xFA] @ ''n tu preferencia.''"

definition why_previous :: string where
  "why_previous = ''Pedido previo del cliente.''"

definition confirm_add :: string where
  "confirm_add = [CHR 0xBF] @ ''Deseas algo m'' @ [CHR 0xE1] @ ''s? Si est'' @ [CHR 0xE1]
     @ '' todo, pulsa **Confirmar e imprimir**.''"

definition confirm_change :: string where
  "confirm_change = [CHR 0xBF] @ ''As'' @ [CHR 0xED] @ '' est'' @ [CHR 0xE1]
     @ '' bien el cambio? Si s'' @ [CHR 0xED] @ '', pulsa **Confirmar e imprimir**.''"

definition confirm_restore :: string where
  "confirm_restore = ''Pulsa **Confirmar e imprimir** para finalizar, o indica cambios.''"

definition confirm_union :: string where
  "confirm_union = [CHR 0xBF] @ ''Desea confirmar la **Uni'' @ [CHR 0xF3] @ ''n roscada 1/2''
     @ [CHR 0x22] @ ''** como alternativa?''"

definition oos_prefix :: string where
  "oos_prefix = ''El **cople recto 1/2'' @ [CHR 0x22] @ ''** est'' @ [CHR 0xE1] @ '' agotado. ''"

definition default_reply :: string where
  "default_reply = ''Listo. '' @ [CHR 0xBF] @ ''Algo m'' @ [CHR 0xE1] @ ''s?''"

definition end_plan :: plan where
  "end_plan = \<lparr>title = Some [], steps = Some [], basket = [], upsell = [],
                confirm = Some ''Pulsa **Confirmar e imprimir** para finalizar.''\<rparr>"

definition end_reply :: string where
  "end_reply = ''Perfecto. Pulsa **Confirmar e imprimir** para terminar. '' @ [CHR 0xA1, CHR 0xC9]
     @ ''xitos con tu proyecto!''"

definition fallback_plan :: plan where
  "fallback_plan = \<lparr>title = Some [], steps = Some [], basket = [], upsell = [],
                     confirm = Some ([CHR 0xBF] @ ''Deseas confirmar ahora?'')\<rparr>"

definition fallback_reply :: string where
  "fallback_reply = ''Tengo una sugerencia lista. '' @ [CHR 0xBF] @ ''Deseas confirmar ahora?''"

subsection \<open>Add path\<close>

text \<open>The loop that re-adds the client cart: one step per entry of \<^verbatim>\<open>cartBySku\<close>.\<close>

definition readd_cart_step ::
  "string set \<Rightarrow> product js_map \<Rightarrow> line list \<Rightarrow> string \<times> jsnum \<Rightarrow> line list" where
  "readd_cart_step candidateSkus bySku ensured e =
     (case e of (s, n) \<Rightarrow>
        if \<not> has_sku s ensured \<and> s \<in> candidateSkus
        then (case map_of bySku s of
                Some src \<Rightarrow> ensured @ [new_line s src n why_kept]
              | None \<Rightarrow> ensured)
        else ensured)"

definition pushIf :: "product list \<Rightarrow> (product \<Rightarrow> bool) \<Rightarrow> string \<Rightarrow> line list \<Rightarrow> line list" where
  "pushIf candidates predicate w ensured =
     (case find predicate candidates of
        Some pick \<Rightarrow>
          if \<not> has_sku (sku pick) ensured
          then ensured @ [new_line (sku pick) pick (JNum 1) w] else ensured
      | None \<Rightarrow> ensured)"

definition is_cutter_spare :: "product \<Rightarrow> bool" where
  "is_cutter_spare p =
     (itest_any spare_words (name p @ '' '' @ description p)
      \<and> itest_any cutter_words (name p @ '' '' @ description p))"

definition is_teflon :: "product \<Rightarrow> bool" where
  "is_teflon p = itest_any teflon_words (name p @ '' '' @ description p)"

definition TEFLON_SKUS :: "string list" where
  "TEFLON_SKUS = [''PTF-12'']"

text \<open>The pinned sealing-tape fallback: the first fetched row in stock, else the first row.\<close>

definition teflon_fallback :: "product list \<Rightarrow> line list \<Rightarrow> line list" where
  "teflon_fallback products ensured =
     (let tfetch = fetch_in TEFLON_SKUS products;
          t = (case find (\<lambda>p. stock p > 0) tfetch of
                 Some p \<Rightarrow> Some p
               | None \<Rightarrow> (case tfetch of [] \<Rightarrow> None | p # _ \<Rightarrow> Some p))
      in case t of
           Some p \<Rightarrow>
             if \<not> has_sku (sku p) ensured
             then ensured @ [new_line (sku p) p (JNum 1) why_teflon] else ensured
         | None \<Rightarrow> ensured)"

text \<open>The paired spare part of the pipe cutter: taken from \<^verbatim>\<open>bySku\<close>, else fetched and
  stored there.\<close>

definition ensure_spare ::
  "product js_map \<Rightarrow> product list \<Rightarrow> line list \<Rightarrow> line list \<times> product js_map" where
  "ensure_spare bySku products ensured =
     (case map_of bySku ''REP-CORTA-001'' of
        Some rep \<Rightarrow> (ensured @ [new_line (sku rep) rep (JNum 1) why_spare], bySku)
      | None \<Rightarrow>
          (case fetch_eq ''REP-CORTA-001'' products of
             Some rep \<Rightarrow>
               (ensured @ [new_line (sku rep) rep (JNum 1) why_spare], AList.update (sku rep) rep bySku)
           | None \<Rightarrow> (ensured, bySku)))"

definition add_path ::
  "string \<Rightarrow> jsnum js_map \<Rightarrow> product js_map \<Rightarrow> product list \<Rightarrow> plan \<Rightarrow> plan \<times> product js_map" where
  "add_path q cartBySku bySku products p =
     (let candidates = candidates_of bySku;
          candidateSkus = candidateSkus_of bySku;
          wantsSpare = itest_any spare_words q;
          wantsTeflon = itest_any teflon_words q;
          ensured = filter (\<lambda>it. sku it \<in> candidateSkus) (basket p);
          ensured = foldl (readd_cart_step candidateSkus bySku) ensured cartBySku;
          ensured = (if wantsSpare then pushIf candidates is_cutter_spare why_spare ensured
                     else ensured);
          ensured = (if wantsTeflon then pushIf candidates is_teflon why_teflon ensured
                     else ensured);
          ensured = (if wantsTeflon
                        \<and> \<not> list_ex (\<lambda>x. itest_any teflon_words (name x @ '' '' @ sku x)) ensured
                     then teflon_fallback products ensured else ensured);
          (ensured, bySku') =
             (if wantsSpare \<and> map_of cartBySku ''CORTA-COBRE-001'' \<noteq> None
                 \<and> \<not> has_sku ''REP-CORTA-001'' ensured
              then ensure_spare bySku products ensured else (ensured, bySku))
      in (p\<lparr>basket := ensured, confirm := Some (or_else (confirm p) confirm_add)\<rparr>, bySku'))"

subsection \<open>Strong replace path\<close>

definition shouldForceReplace :: "string \<Rightarrow> jsnum js_map \<Rightarrow> line list \<Rightarrow> bool" where
  "shouldForceReplace q cartBySku bskt =
     (let prevSkus = set (map fst cartBySku)
      in \<not> addIntent q
         \<and> (replaceIntent q
            \<or> (mentionsAlternates q \<and> length bskt > 0 \<and> list_all (\<lambda>x. sku x \<in> prevSkus) bskt)))"

definition preferred_line :: "product \<Rightarrow> line" where
  "preferred_line src = new_line (sku src) src (JNum 1) why_preference"

definition append_missing :: "product list \<Rightarrow> line list \<Rightarrow> line list" where
  "append_missing picks bskt =
     foldl (\<lambda>b src. if \<not> has_sku (sku src) b then b @ [preferred_line src] else b) bskt picks"

text \<open>\<^verbatim>\<open>if (cartQty) it.qty = Math.max(1, Number(cartQty))\<close>\<close>

definition requantify :: "jsnum js_map \<Rightarrow> line \<Rightarrow> line" where
  "requantify cartBySku it =
     (case map_of cartBySku (sku it) of
        Some c \<Rightarrow> if truthy c then it\<lparr>qty := of_jsnum (max_one c)\<rparr> else it
      | None \<Rightarrow> it)"

definition names_any :: "string list \<Rightarrow> line list \<Rightarrow> bool" where
  "names_any ws bskt = list_ex (\<lambda>x. itest_any ws (name x @ '' '' @ sku x)) bskt"

text \<open>The body of \<^verbatim>\<open>if (shouldForceReplace)\<close>.\<close>

definition force_replace :: "string \<Rightarrow> product list \<Rightarrow> jsnum js_map \<Rightarrow> line list \<Rightarrow> line list" where
  "force_replace q candidates cartBySku bskt =
     (let prevSkus = set (map fst cartBySku);
          kept = filter (\<lambda>x. sku x \<notin> prevSkus) bskt;
          b = (if length kept = 0
               then map preferred_line (pickByKeywords q (normalizeQuery q) candidates 3)
               else if mentionsAlternates q
               then (let wantUnion = itest_any union_words q;
                         wantTeflon = itest_any teflon_words q;
                         wantSpare = itest_any spare_words q;
                         hasUnion = names_any union_words kept;
                         hasTeflon = names_any teflon_words kept;
                         hasSpare = names_any spare_words kept
                     in if (wantUnion \<and> \<not> hasUnion) \<or> (wantTeflon \<and> \<not> hasTeflon)
                           \<or> (wantSpare \<and> \<not> hasSpare)
                        then append_missing (pickByKeywords q (normalizeQuery q) candidates 3) kept
                        else kept)
               else kept)
      in map (requantify cartBySku) b)"

definition replace_path :: "string \<Rightarrow> product list \<Rightarrow> jsnum js_map \<Rightarrow> plan \<Rightarrow> plan" where
  "replace_path q candidates cartBySku p =
     (if shouldForceReplace q cartBySku (basket p)
      then p\<lparr>basket := force_replace q candidates cartBySku (basket p)\<rparr> else p)"

subsection \<open>Empty basket handling and cart preservation\<close>

definition restore_step ::
  "string set \<Rightarrow> product js_map \<Rightarrow> line list \<Rightarrow> string \<times> jsnum \<Rightarrow> line list" where
  "restore_step candidateSkus bySku b e =
     (case e of (s, n) \<Rightarrow>
        if s \<notin> candidateSkus then b
        else (case map_of bySku s of
                Some src \<Rightarrow> b @ [new_line (sku src) src n why_kept]
              | None \<Rightarrow> b))"

definition empty_basket_handling ::
  "string \<Rightarrow> product list \<Rightarrow> string set \<Rightarrow> product js_map \<Rightarrow> jsnum js_map \<Rightarrow> plan \<Rightarrow> plan" where
  "empty_basket_handling q candidates candidateSkus bySku cartBySku p =
     (if length (basket p) = 0
      then if replaceIntent q \<and> \<not> addIntent q
           then p\<lparr>basket := map preferred_line (pickByKeywords q (normalizeQuery q) candidates 3),
                  confirm := Some (or_else (confirm p) confirm_change)\<rparr>
           else if \<not> removeIntent q \<and> length cartBySku > 0
           then p\<lparr>basket := foldl (restore_step candidateSkus bySku) [] cartBySku,
                  confirm := Some (or_else (confirm p) confirm_restore)\<rparr>
           else p
      else p)"

definition preserve_step ::
  "string set \<Rightarrow> product js_map \<Rightarrow> line list \<Rightarrow> string \<times> jsnum \<Rightarrow> line list" where
  "preserve_step candidateSkus bySku b e =
     (case e of (s, n) \<Rightarrow>
        if \<not> has_sku s b \<and> s \<in> candidateSkus
        then (case map_of bySku s of
                Some src \<Rightarrow> b @ [new_line (sku src) src n why_previous]
              | None \<Rightarrow> b)
        else b)"

definition preserve_cart ::
  "string \<Rightarrow> string set \<Rightarrow> product js_map \<Rightarrow> jsnum js_map \<Rightarrow> plan \<Rightarrow> plan" where
  "preserve_cart q candidateSkus bySku cartBySku p =
     (if \<not> replaceIntent q \<and> \<not> removeIntent q
      then p\<lparr>basket := foldl (preserve_step candidateSkus bySku) (basket p) cartBySku\<rparr>
      else p)"

subsection \<open>Out-of-stock nudge\<close>

text \<open>The pass for a PVC leak: when the straight coupling \<^verbatim>\<open>PVC-CPL-050\<close> is out of stock
  and the threaded union is in the basket, the reply gets a warning in front and the plan a
  confirmation prompt. A lookup that fails is caught by the source and leaves everything as
  it is, like a missing row.\<close>

definition oos_nudge :: "string \<Rightarrow> product list \<Rightarrow> plan \<Rightarrow> string \<Rightarrow> plan \<times> string" where
  "oos_nudge q products p reply =
     (if itest_any [''fuga''] q \<and> itest_any [''pvc''] q
      then (let cople = fetch_eq ''PVC-CPL-050'' products;
                basketHasUnion = has_sku ''PVC-UNION-050'' (basket p)
            in case cople of
                 None \<Rightarrow> (p, reply)
               | Some c \<Rightarrow>
                   if stock c = 0 \<and> basketHasUnion \<and> \<not> itest_any [''agotad''] reply
                   then (p\<lparr>confirm := Some (or_else (confirm p) confirm_union)\<rparr>,
                         oos_prefix @ reply)
                   else (p, reply))
      else (p, reply))"

subsection \<open>The turn\<close>

text \<open>\<open>reconcile\<close> is the handler from the point where the candidate map \<^verbatim>\<open>bySku\<close> is
  built (line 216 of \<^verbatim>\<open>agent.ts\<close>) to the response: the utterance, the client cart, the
  candidate map, the products table for the point lookups and the parsed output of the
  generative step go in, the plan and the reply come out.\<close>

definition validated :: "product js_map \<Rightarrow> jsnum js_map \<Rightarrow> proposal \<Rightarrow> plan" where
  "validated bySku cartBySku r =
     \<lparr>title = raw_title r, steps = raw_steps r,
      basket = map (prefer_client_qty cartBySku)
                 (filterToCandidates (candidateSkus_of bySku) (raw_basket r)),
      upsell = filterToCandidates (candidateSkus_of bySku) (raw_upsell r),
      confirm = raw_confirm r\<rparr>"

definition reconcile ::
  "string \<Rightarrow> cart_item list \<Rightarrow> product js_map \<Rightarrow> product list \<Rightarrow> generated \<Rightarrow> plan \<times> string" where
  "reconcile q cart bySku products gen =
     (let candidates = candidates_of bySku;
          candidateSkus = candidateSkus_of bySku
      in if endIntent q then (end_plan, end_reply)
         else (let cartBySku = cartBySku_of cart
               in case gen of
                    Malformed \<Rightarrow> (fallback_plan, fallback_reply)
                  | Parsed r \<Rightarrow>
                      (let p0 = validated bySku cartBySku r;
                           reply = or_else (raw_reply r) default_reply;
                           (p1, bySku1) = (if addIntent q then add_path q cartBySku bySku products p0
                                           else (p0, bySku));
                           p2 = replace_path q candidates cartBySku p1;
                           p3 = empty_basket_handling q candidates candidateSkus bySku1 cartBySku p2;
                           p4 = preserve_cart q candidateSkus bySku1 cartBySku p3
                       in oos_nudge q products p4 reply)))"

text \<open>The handler around it: a missing or empty \<^verbatim>\<open>q\<close> is answered with status 400, a failed
  product search with status 500 and its message; otherwise the rows found (phrase,
  normalised phrase, token and synonym searches, in this order) and the rows of the cart's
  SKUs fill \<^verbatim>\<open>bySku\<close>, and the turn is answered with status 200. The queries of the
  search are the work of the database and enter as their result \<open>found\<close>; the request is a
  POST request, and the optional \<^verbatim>\<open>__debug\<close> field of the plan is left out.\<close>

datatype response = Ok200 plan string | Failed nat string

definition cartSkuList :: "cart_item list \<Rightarrow> string list" where
  "cartSkuList cart = dedupe (map cart_sku cart)"

definition handler ::
  "string \<Rightarrow> cart_item list \<Rightarrow> string + product list \<Rightarrow> product list \<Rightarrow> generated \<Rightarrow> response" where
  "handler q cart found products gen =
     (if q = [] then Failed 400 ''q required''
      else case found of
             Inl msg \<Rightarrow> Failed 500 msg
           | Inr rows \<Rightarrow>
               (let bySku = bySku_of (rows @ fetch_in (cartSkuList cart) products);
                    (p, reply) = reconcile q cart bySku products gen
                in Ok200 p reply))"

section \<open>Sample data\<close>

text \<open>Small catalogue rows, proposal lines and proposals, used where a property is
  instantiated at a concrete turn.\<close>

definition demo_product :: "string \<Rightarrow> string \<Rightarrow> int \<Rightarrow> product" where
  "demo_product s n k =
     \<lparr>sku = s, name = n, price = 10, currency = ''MXN'', stock = k, image_url = [],
      brand = [], category = [], subcategory = [], description = []\<rparr>"

definition demo_line :: "string \<Rightarrow> string \<Rightarrow> jsvalue \<Rightarrow> line" where
  "demo_line s n k =
     \<lparr>sku = s, name = n, price = 10, currency = ''MXN'', stock = 5, image_url = [],
      qty = k, why = []\<rparr>"

definition demo_proposal :: "line list \<Rightarrow> proposal" where
  "demo_proposal ls =
     \<lparr>raw_title = None, raw_steps = None, raw_basket = Some (map Some ls), raw_upsell = None,
      raw_confirm = None, raw_reply = None\<rparr>"

definition demo_plan :: "line list \<Rightarrow> plan" where
  "demo_plan ls = \<lparr>title = None, steps = None, basket = ls, upsell = [], confirm = None\<rparr>"

section \<open>The picker in the words of the specification\<close>

text \<open>Second definitions, written from the specification's sentence and compared with
  \<^const>\<open>score_of\<close> and \<^const>\<open>pickByKeywords\<close> below: the score is 2 per keyword group
  with a member in both texts plus 1 for a candidate in stock; the picker returns the
  candidates of positive score, by falling score, ties in candidate order, cut at the cap.\<close>

definition spec_score :: "string \<Rightarrow> product \<Rightarrow> int" where
  "spec_score utterance c =
     2 * int (length (filter (\<lambda>g. test_any g utterance \<and> test_any g (hay c)) keyword_groups))
     + (if stock c > 0 then 1 else 0)"

definition spec_pick :: "string \<Rightarrow> product list \<Rightarrow> nat \<Rightarrow> product list" where
  "spec_pick utterance candidates mx =
     take mx (sort_key (\<lambda>c. - spec_score utterance c)
                (filter (\<lambda>c. 0 < spec_score utterance c) candidates))"

text \<open>The sealing-tape group is the second row of the table.\<close>

definition teflon_group :: "string list" where
  "teflon_group = keyword_groups ! 1"

definition teflon_demo :: "product list" where
  "teflon_demo =
     [demo_product ''WR-8IN'' ''Llave ajustable'' 4,
      demo_product ''PTF-19'' ''Cinta teflon ancha'' 0,
      demo_product ''PTF-12'' ''Cinta de teflon'' 7]"

section \<open>The force-replace trigger in the words of the specification\<close>

text \<open>A second definition, written from the specification's sentence and compared with
  \<^const>\<open>shouldForceReplace\<close> below: the turn is no Add turn, and Replace was classified or
  the utterance mentions alternate vocabulary (union, sealing-tape and spare-part terms) while
  every SKU of the proposal's basket is a SKU of the previous cart. The union terms are the
  first row of the picker's keyword table, which has the word with the o-acute.\<close>

definition union_terms :: "string list" where
  "union_terms = keyword_groups ! 0"

definition spec_mentions_alternates :: "string \<Rightarrow> bool" where
  "spec_mentions_alternates q = itest_any (union_terms @ teflon_words @ spare_words) q"

definition spec_force_replace :: "string \<Rightarrow> cart_item list \<Rightarrow> line list \<Rightarrow> bool" where
  "spec_force_replace q cart bskt =
     (\<not> addIntent q
      \<and> (replaceIntent q
          \<or> (spec_mentions_alternates q \<and> list_all (\<lambda>x. sku x \<in> cart_sku ` set cart) bskt)))"

section \<open>Invariants used in the proofs\<close>

text \<open>The candidate map is keyed by the SKU of each row, once per SKU.\<close>

definition wf_bySku :: "product js_map \<Rightarrow> bool" where
  "wf_bySku m = (distinct (map fst m) \<and> list_all (\<lambda>e. sku (snd e) = fst e) m)"

text \<open>A number that \<^verbatim>\<open>Math.max(1, x)\<close> leaves as it is: an integer of at least 1, or
  \<^verbatim>\<open>NaN\<close>.\<close>

definition floored :: "jsnum \<Rightarrow> bool" where
  "floored x = (max_one x = x)"

text \<open>The invariant of a basket line: its SKU is a candidate or a pinned SKU; its quantity is
  a number of at least 1 or \<^verbatim>\<open>NaN\<close>, and \<^verbatim>\<open>NaN\<close> only where the cart holds \<^verbatim>\<open>NaN\<close> for the
  SKU or the line is a validated proposal line (\<open>P0\<close>); a candidate SKU of the cart
  carries the cart's quantity when that is an integer; and a line outside the cart is a
  validated proposal line or has quantity 1.\<close>

definition line_ok :: "string set \<Rightarrow> jsnum js_map \<Rightarrow> line set \<Rightarrow> (string \<Rightarrow> bool) \<Rightarrow> line \<Rightarrow> bool" where
  "line_ok K C P0 pin l =
     ((sku l \<in> K \<or> pin (sku l))
      \<and> (\<exists>x. floored x \<and> qty l = of_jsnum x)
      \<and> (qty l = of_jsnum JNaN \<longrightarrow> map_of C (sku l) = Some JNaN \<or> l \<in> P0)
      \<and> (sku l \<in> K \<longrightarrow> (\<forall>n. map_of C (sku l) = Some (JNum n) \<longrightarrow> qty l = number n))
      \<and> (map_of C (sku l) = None \<longrightarrow> l \<in> P0 \<or> qty l = number 1))"

text \<open>Every cart SKU that is a candidate has a line.\<close>

definition covered :: "string set \<Rightarrow> jsnum js_map \<Rightarrow> line list \<Rightarrow> bool" where
  "covered K C b = (\<forall>s \<in> fst ` set C. s \<in> K \<longrightarrow> has_sku s b)"

text \<open>The cart map has one entry per SKU, and each quantity is at least 1 or \<^verbatim>\<open>NaN\<close>.\<close>

definition cart_pos :: "jsnum js_map \<Rightarrow> bool" where
  "cart_pos C = (distinct (map fst C) \<and> (\<forall>e \<in> set C. floored (snd e)))"

text \<open>The invariant of the list \<^verbatim>\<open>ensured\<close> along the add path, relative to the kept
  proposal lines \<open>e\<close>.\<close>

definition ensured_inv ::
  "string set \<Rightarrow> jsnum js_map \<Rightarrow> line set \<Rightarrow> (string \<Rightarrow> bool) \<Rightarrow> line list \<Rightarrow> line list \<Rightarrow> bool" where
  "ensured_inv K C P0 pin e b =
     (list_all (line_ok K C P0 pin) b \<and> covered K C b \<and> set e \<subseteq> set b
      \<and> (distinct (map sku e) \<longrightarrow> distinct (map sku b)))"

text \<open>The validated proposal lines (\<open>P0\<close>) whose SKU is outside the cart are all in the
  basket, and a basket line outside the cart is one of them or has a SKU that none of them
  has.\<close>

definition kept_inv :: "jsnum js_map \<Rightarrow> line set \<Rightarrow> line list \<Rightarrow> bool" where
  "kept_inv C P0 b =
     ((\<forall>x \<in> P0. map_of C (sku x) = None \<longrightarrow> x \<in> set b)
      \<and> (\<forall>l \<in> set b. map_of C (sku l) = None \<longrightarrow> l \<in> P0 \<or> sku l \<notin> sku ` P0))"

text \<open>The SKUs that the add path fetches from the products table directly.\<close>

definition pinned :: "string \<Rightarrow> product list \<Rightarrow> string \<Rightarrow> bool" where
  "pinned q products s =
     (addIntent q \<and> (s = ''PTF-12'' \<or> s = ''REP-CORTA-001'') \<and> s \<in> sku ` set products)"

text \<open>More sample data: a pipe cutter and a sealing tape, and a turn whose cart and proposal
  carry zero, negative and missing quantities.\<close>

definition cutter_row :: product where
  "cutter_row = demo_product ''CORTA-COBRE-001'' ''Cortatubo para cobre'' 3"

definition tape_row :: product where
  "tape_row = demo_product ''PTF-12'' ''Cinta de teflon'' 7"

definition odd_cart :: "cart_item list" where
  "odd_cart = [\<lparr>cart_sku = ''A'', cart_qty = number 0\<rparr>, \<lparr>cart_sku = ''B'', cart_qty = number (- 3)\<rparr>,
               \<lparr>cart_sku = ''C'', cart_qty = Nullish\<rparr>]"

definition odd_rows :: "product list" where
  "odd_rows = [demo_product ''A'' ''Codo'' 1, demo_product ''B'' ''Tee'' 1, demo_product ''C'' ''Tapon'' 1,
               demo_product ''D'' ''Niple'' 1, demo_product ''E'' ''Valvula'' 1]"

definition odd_proposal :: proposal where
  "odd_proposal = demo_proposal [demo_line ''D'' ''Niple'' Nullish, demo_line ''E'' ''Valvula'' (number (- 2)),
                                 demo_line ''A'' ''Codo'' (number 7)]"

text \<open>The string \<^verbatim>\<open>"dos"\<close> in the place of a quantity: it is truthy and not nullish, and
  \<^verbatim>\<open>Number("dos")\<close> is \<^verbatim>\<open>NaN\<close>.\<close>

definition not_numeral :: jsvalue where
  "not_numeral = JVal True JNaN"

text \<open>Sample turns for the add path: a cart with a repeated SKU and a proposal that
  lists a cart SKU and another SKU with quantities of its own, and the utterance, cart and
  spare part of the pipe-cutter case.\<close>

definition mixed_cart :: "cart_item list" where
  "mixed_cart = [\<lparr>cart_sku = ''CORTA-COBRE-001'', cart_qty = number 2\<rparr>,
                 \<lparr>cart_sku = ''CORTA-COBRE-001'', cart_qty = number 3\<rparr>]"

definition mixed_proposal :: proposal where
  "mixed_proposal = demo_proposal [demo_line ''D'' ''Niple'' (number 4),
                                   demo_line ''CORTA-COBRE-001'' ''Cortatubo para cobre'' (number 9)]"

definition spare_utterance :: string where
  "spare_utterance = ''s'' @ [CHR 0xED] @ '', dame el repuesto''"

definition cutter_cart :: "cart_item list" where
  "cutter_cart = [\<lparr>cart_sku = ''CORTA-COBRE-001'', cart_qty = number 1\<rparr>]"

definition spare_row :: product where
  "spare_row = demo_product ''REP-CORTA-001'' ''Disco de repuesto para cortatubo'' 6"

text \<open>The replace scenario: a threaded union and couplings among the candidates.\<close>

definition union_row :: product where
  "union_row = demo_product ''PVC-UNION-050'' ''Union roscada PVC 1/2'' 4"

definition coupling_rows :: "product list" where
  "coupling_rows = [union_row, demo_product ''PVC-CPL-050'' ''Cople recto 1/2'' 0,
                    demo_product ''PVC-CPL-075'' ''Cople recto 3/4'' 5]"

text \<open>The utterance "la union" spelt with the o-acute, and a turn whose cart and
  proposal hold the coupling that is in stock.\<close>

definition accented_union :: string where
  "accented_union = ''la uni'' @ [CHR 0xF3] @ ''n''"

definition coupling_cart :: "cart_item list" where
  "coupling_cart = [\<lparr>cart_sku = ''PVC-CPL-075'', cart_qty = number 2\<rparr>]"

definition coupling_line :: line where
  "coupling_line = demo_line ''PVC-CPL-075'' ''Cople recto 3/4'' (number 2)"

section \<open>End intent and malformed proposals\<close>

text \<open>C4. An utterance classified as End is answered with the terminal plan, whose basket
  and upsell are empty, whatever the client cart holds and whatever the generative step
  would have produced: the result does not depend on them.\<close>

theorem end_intent_empty_plan:
  "endIntent q \<Longrightarrow>
     reconcile q cart bySku products gen = (end_plan, end_reply)
     \<and> basket (fst (reconcile q cart bySku products gen)) = []
     \<and> upsell (fst (reconcile q cart bySku products gen)) = []"
  by (simp add: reconcile_def end_plan_def)

theorem end_intent_empty_plan_witness:
  "endIntent ''no gracias''
   \<and> basket (fst (reconcile ''no gracias'' [\<lparr>cart_sku = ''PVC-UNION-050'', cart_qty = number 2\<rparr>]
        (bySku_of [demo_product ''PVC-UNION-050'' ''Union roscada'' 4]) []
        (Parsed (demo_proposal [demo_line ''PVC-UNION-050'' ''Union roscada'' (number 2)])))) = []
   \<and> upsell (fst (reconcile ''no gracias'' [\<lparr>cart_sku = ''PVC-UNION-050'', cart_qty = number 2\<rparr>]
        (bySku_of [demo_product ''PVC-UNION-050'' ''Union roscada'' 4]) []
        (Parsed (demo_proposal [demo_line ''PVC-UNION-050'' ''Union roscada'' (number 2)])))) = []"
proof -
  have h: "endIntent ''no gracias''" by code_simp
  from end_intent_empty_plan [OF h] h show ?thesis by blast
qed

text \<open>C3. When the text of the generative step does not parse, a turn that reached the
  generative step (a query, a successful search, no End intent) is answered with status 200
  and the fixed fallback plan: empty basket, empty upsell, the generic reply.\<close>

theorem malformed_proposal_fallback:
  "q \<noteq> [] \<Longrightarrow> \<not> endIntent q \<Longrightarrow>
     handler q cart (Inr rows) products Malformed = Ok200 fallback_plan fallback_reply
     \<and> basket fallback_plan = [] \<and> upsell fallback_plan = []"
  by (simp add: handler_def reconcile_def fallback_plan_def)

theorem malformed_proposal_fallback_witness:
  "''quiero un cople'' \<noteq> [] \<and> \<not> endIntent ''quiero un cople''
   \<and> handler ''quiero un cople'' [\<lparr>cart_sku = ''PVC-UNION-050'', cart_qty = number 2\<rparr>]
        (Inr [demo_product ''PVC-CPL-050'' ''Cople recto'' 0]) [] Malformed
      = Ok200 fallback_plan fallback_reply"
proof -
  have h1: "''quiero un cople'' \<noteq> []" by simp
  have h2: "\<not> endIntent ''quiero un cople''" by code_simp
  from malformed_proposal_fallback [OF h1 h2] h1 h2 show ?thesis by blast
qed

section \<open>The out-of-stock nudge changes text only\<close>

text \<open>C9. The nudge pass returns the plan with the same basket and the same upsell, line
  for line (and the same title and steps); it can change the confirmation prompt and the
  reply only.\<close>

theorem oos_nudge_frame:
  "basket (fst (oos_nudge q products p reply)) = basket p
   \<and> upsell (fst (oos_nudge q products p reply)) = upsell p
   \<and> title (fst (oos_nudge q products p reply)) = title p
   \<and> steps (fst (oos_nudge q products p reply)) = steps p"
  by (simp add: oos_nudge_def Let_def split: option.split)

theorem oos_nudge_frame_witness:
  "oos_nudge ''tengo una fuga en un tubo de pvc'' [demo_product ''PVC-CPL-050'' ''Cople recto 1/2'' 0]
        (demo_plan [demo_line ''PVC-UNION-050'' ''Union roscada PVC 1/2'' (number 1)]) ''Listo.''
     = ((demo_plan [demo_line ''PVC-UNION-050'' ''Union roscada PVC 1/2'' (number 1)])
           \<lparr>confirm := Some confirm_union\<rparr>, oos_prefix @ ''Listo.'')
   \<and> basket (fst (oos_nudge ''tengo una fuga en un tubo de pvc''
          [demo_product ''PVC-CPL-050'' ''Cople recto 1/2'' 0]
          (demo_plan [demo_line ''PVC-UNION-050'' ''Union roscada PVC 1/2'' (number 1)]) ''Listo.''))
      = basket (demo_plan [demo_line ''PVC-UNION-050'' ''Union roscada PVC 1/2'' (number 1)])"
proof -
  have h: "oos_nudge ''tengo una fuga en un tubo de pvc'' [demo_product ''PVC-CPL-050'' ''Cople recto 1/2'' 0]
        (demo_plan [demo_line ''PVC-UNION-050'' ''Union roscada PVC 1/2'' (number 1)]) ''Listo.''
     = ((demo_plan [demo_line ''PVC-UNION-050'' ''Union roscada PVC 1/2'' (number 1)])
           \<lparr>confirm := Some confirm_union\<rparr>, oos_prefix @ ''Listo.'')"
    by code_simp
  note T = oos_nudge_frame [of "''tengo una fuga en un tubo de pvc''"
      "[demo_product ''PVC-CPL-050'' ''Cople recto 1/2'' 0]"
      "demo_plan [demo_line ''PVC-UNION-050'' ''Union roscada PVC 1/2'' (number 1)]" "''Listo.''"]
  show ?thesis by (intro conjI h T [THEN conjunct1])
qed

section \<open>Keyword fallback picker: ranking\<close>

lemma foldl_group_score:
  "foldl (\<lambda>sc g. if P g then sc + 2 else sc) (a::int) gs = a + 2 * int (length (filter P gs))"
  by (induction gs arbitrary: a) auto

lemma score_of_spec: "score_of u c = spec_score u c"
  by (simp add: score_of_def spec_score_def foldl_group_score Let_def)

lemma insort_key_map:
  "insort_key g (h x) (map h ys) = map h (insort_key (\<lambda>y. g (h y)) x ys)"
  by (induction ys) auto

lemma sort_key_map:
  "sort_key g (map h ys) = map h (sort_key (\<lambda>y. g (h y)) ys)"
  by (induction ys) (auto simp: insort_key_map)

lemma pickByKeywords_spec:
  "pickByKeywords q qNorm candidates mx = spec_pick (pick_text q qNorm) candidates mx"
proof -
  let ?f = "score_of (pick_text q qNorm)"
  have "filter (\<lambda>s. snd s > 0) (map (\<lambda>c. (c, ?f c)) candidates)
        = map (\<lambda>c. (c, ?f c)) (filter (\<lambda>c. 0 < ?f c) candidates)"
    by (simp add: filter_map comp_def)
  then have "map fst (take mx (sort_key (\<lambda>s. - snd s)
               (filter (\<lambda>s. snd s > 0) (map (\<lambda>c. (c, ?f c)) candidates))))
             = take mx (sort_key (\<lambda>c. - ?f c) (filter (\<lambda>c. 0 < ?f c) candidates))"
    by (simp add: sort_key_map take_map [symmetric] comp_def)
  then show ?thesis
    by (simp add: pickByKeywords_def spec_pick_def Let_def score_of_spec)
qed

lemma hd_sort_key_unique_min:
  assumes "c \<in> set xs" and "\<forall>y \<in> set xs. y \<noteq> c \<longrightarrow> f c < f y"
  shows "hd (sort_key f xs) = c"
proof -
  have ne: "sort_key f xs \<noteq> []" by (metis assms(1) empty_iff empty_set set_sort)
  then obtain z zs where zs: "sort_key f xs = z # zs" by (cases "sort_key f xs") auto
  have "sorted (map f (z # zs))" using sorted_sort_key [of f xs] zs by simp
  moreover have "c \<in> set (z # zs)" using assms(1) zs by (metis set_sort)
  ultimately have "f z \<le> f c" by auto
  moreover have "z \<in> set xs" using zs by (metis list.set_intros(1) set_sort)
  ultimately have "z = c" using assms(2) by force
  then show ?thesis using zs by simp
qed

lemma only_teflon_count:
  assumes "\<forall>g \<in> set keyword_groups. g \<noteq> teflon_group \<longrightarrow> \<not> test_any g u"
  shows "length (filter (\<lambda>g. test_any g u \<and> test_any g h) keyword_groups)
         = (if test_any teflon_group u \<and> test_any teflon_group h then 1 else 0)"
  using assms by (simp add: keyword_groups_def teflon_group_def)


lemma spec_score_teflon_only:
  assumes "\<forall>g \<in> set keyword_groups. g \<noteq> teflon_group \<longrightarrow> \<not> test_any g u"
  shows "spec_score u c =
           (if test_any teflon_group u \<and> test_any teflon_group (hay c) then 2 else 0)
           + (if stock c > 0 then 1 else 0)"
  by (simp add: spec_score_def only_teflon_count [OF assms])

lemma spec_pick_teflon_first:
  assumes mx: "0 < mx"
    and hit: "test_any teflon_group u"
    and only: "\<forall>g \<in> set keyword_groups. g \<noteq> teflon_group \<longrightarrow> \<not> test_any g u"
    and c: "c \<in> set candidates" "test_any teflon_group (hay c)" "0 < stock c"
    and uniq: "\<forall>c' \<in> set candidates. test_any teflon_group (hay c') \<and> 0 < stock c' \<longrightarrow> c' = c"
  shows "hd (spec_pick u candidates mx) = c"
proof -
  let ?pos = "filter (\<lambda>c. 0 < spec_score u c) candidates"
  have sc: "spec_score u c = 3"
    using hit c by (simp add: spec_score_teflon_only [OF only])
  have less: "spec_score u y < 3" if "y \<in> set candidates" "y \<noteq> c" for y
    using that uniq by (auto simp: spec_score_teflon_only [OF only])
  have "c \<in> set ?pos" using c(1) sc by simp
  moreover have "\<forall>y \<in> set ?pos. y \<noteq> c \<longrightarrow> - spec_score u c < - spec_score u y"
    using less sc by auto
  ultimately have "hd (sort_key (\<lambda>c. - spec_score u c) ?pos) = c"
    by (rule hd_sort_key_unique_min)
  then show ?thesis using mx by (simp add: spec_pick_def hd_take)
qed

lemma spec_pick_full:
  "spec_pick u candidates (length candidates)
   = sort_key (\<lambda>c. - spec_score u c) (filter (\<lambda>c. 0 < spec_score u c) candidates)"
  by (simp add: spec_pick_def)

text \<open>C6 (amended). The scoring loop computes the score of the specification; the picker with
  cap \<open>mx\<close> is the first \<open>mx\<close> entries of the uncapped result, which holds exactly the
  candidates of positive score, by falling score, candidates of equal score in their
  original order. When the utterance text mentions the sealing-tape group and no other
  keyword group, the cap is positive and exactly one candidate matches that group with
  stock, this candidate comes first, wherever it stands among the candidates.\<close>

theorem pickByKeywords_ranked:
  "(let txt = pick_text q qNorm;
        pos = filter (\<lambda>c. 0 < spec_score txt c) candidates;
        full = pickByKeywords q qNorm candidates (length candidates);
        r = pickByKeywords q qNorm candidates mx
    in score_of txt = spec_score txt
       \<and> r = take mx full
       \<and> mset full = mset pos
       \<and> sorted_wrt (\<lambda>a b. spec_score txt b \<le> spec_score txt a) full
       \<and> (\<forall>k. filter (\<lambda>c. spec_score txt c = k) full = filter (\<lambda>c. spec_score txt c = k) pos)
       \<and> (0 < mx \<and> test_any teflon_group txt
            \<and> (\<forall>g \<in> set keyword_groups. g \<noteq> teflon_group \<longrightarrow> \<not> test_any g txt)
            \<and> c \<in> set candidates \<and> test_any teflon_group (hay c) \<and> 0 < stock c
            \<and> (\<forall>c' \<in> set candidates. test_any teflon_group (hay c') \<and> 0 < stock c' \<longrightarrow> c' = c)
          \<longrightarrow> hd r = c))"
proof -
  let ?txt = "pick_text q qNorm"
  let ?key = "\<lambda>c. - spec_score ?txt c"
  let ?pos = "filter (\<lambda>c. 0 < spec_score ?txt c) candidates"
  have full: "pickByKeywords q qNorm candidates (length candidates) = sort_key ?key ?pos"
    by (simp add: pickByKeywords_spec spec_pick_full)
  have r: "pickByKeywords q qNorm candidates mx = take mx (sort_key ?key ?pos)"
    by (simp add: pickByKeywords_spec spec_pick_def)
  have p1: "score_of ?txt = spec_score ?txt"
    by (rule ext) (rule score_of_spec)
  have p3: "mset (sort_key ?key ?pos) = mset ?pos" by simp
  have "sorted (map ?key (sort_key ?key ?pos))" by (rule sorted_sort_key)
  then have p4: "sorted_wrt (\<lambda>a b. spec_score ?txt b \<le> spec_score ?txt a) (sort_key ?key ?pos)"
    by (simp add: sorted_map)
  have p5: "filter (\<lambda>c. spec_score ?txt c = k) (sort_key ?key ?pos)
            = filter (\<lambda>c. spec_score ?txt c = k) ?pos" for k
    using sort_key_stable [of ?key "- k" ?pos] by simp
  have p6: "hd (pickByKeywords q qNorm candidates mx) = c"
    if "0 < mx" "test_any teflon_group ?txt"
       "\<forall>g \<in> set keyword_groups. g \<noteq> teflon_group \<longrightarrow> \<not> test_any g ?txt"
       "c \<in> set candidates" "test_any teflon_group (hay c)" "0 < stock c"
       "\<forall>c' \<in> set candidates. test_any teflon_group (hay c') \<and> 0 < stock c' \<longrightarrow> c' = c"
    using spec_pick_teflon_first [OF that] by (simp add: pickByKeywords_spec)
  show ?thesis
    unfolding Let_def full r using p1 p3 p4 p5 p6 [unfolded r] by blast
qed

theorem pickByKeywords_ranked_witness:
  "test_any teflon_group (pick_text ''necesito teflon'' (normalizeQuery ''necesito teflon''))
   \<and> filter (\<lambda>g. test_any g (pick_text ''necesito teflon'' (normalizeQuery ''necesito teflon'')))
        keyword_groups = [teflon_group]
   \<and> filter (\<lambda>c. test_any teflon_group (hay c) \<and> 0 < stock c) teflon_demo
        = [demo_product ''PTF-12'' ''Cinta de teflon'' 7]
   \<and> hd (pickByKeywords ''necesito teflon'' (normalizeQuery ''necesito teflon'') teflon_demo 3)
        = demo_product ''PTF-12'' ''Cinta de teflon'' 7"
proof -
  let ?q = "''necesito teflon''"
  let ?txt = "pick_text ?q (normalizeQuery ?q)"
  let ?c = "demo_product ''PTF-12'' ''Cinta de teflon'' 7"
  let ?P = "\<lambda>c. test_any teflon_group (hay c) \<and> 0 < stock c"
  have h1: "test_any teflon_group ?txt" by code_simp
  have h2: "filter (\<lambda>g. test_any g ?txt) keyword_groups = [teflon_group]" by code_simp
  have h3: "filter ?P teflon_demo = [?c]"
    by code_simp
  have g2: "\<forall>g \<in> set keyword_groups. g \<noteq> teflon_group \<longrightarrow> \<not> test_any g ?txt"
  proof (intro ballI impI notI)
    fix g assume a: "g \<in> set keyword_groups" "g \<noteq> teflon_group" "test_any g ?txt"
    from a(1,3) have "g \<in> set (filter (\<lambda>g. test_any g ?txt) keyword_groups)"
      by (simp only: set_filter mem_Collect_eq conj_commute)
    then have "g \<in> set [teflon_group]" by (simp only: h2)
    with a(2) show False by (simp only: list.set insert_iff empty_iff simp_thms)
  qed
  have g3: "\<forall>c' \<in> set teflon_demo. ?P c' \<longrightarrow> c' = ?c"
  proof (intro ballI impI)
    fix c' assume a: "c' \<in> set teflon_demo" "?P c'"
    then have "c' \<in> set (filter ?P teflon_demo)"
      by (simp only: set_filter mem_Collect_eq simp_thms)
    then have "c' \<in> set [?c]" by (simp only: h3)
    then show "c' = ?c" by (simp only: list.set insert_iff empty_iff simp_thms)
  qed
  have "?c \<in> set [?c]" by (simp only: list.set insert_iff simp_thms)
  then have "?c \<in> set (filter ?P teflon_demo)" by (simp only: h3)
  then have g4: "?c \<in> set teflon_demo \<and> ?P ?c"
    by (simp only: set_filter mem_Collect_eq)
  have mx: "(0::nat) < 3" by simp
  note T = pickByKeywords_ranked [of ?q "normalizeQuery ?q" teflon_demo 3 ?c, unfolded Let_def]
  note T6 = T [THEN conjunct2, THEN conjunct2, THEN conjunct2, THEN conjunct2, THEN conjunct2]
  have "hd (pickByKeywords ?q (normalizeQuery ?q) teflon_demo 3) = ?c"
    by (rule T6 [THEN mp]) (intro conjI mx h1 g2 g3 g4 [THEN conjunct1]
        g4 [THEN conjunct2, THEN conjunct1] g4 [THEN conjunct2, THEN conjunct2])
  with h1 h2 h3 show ?thesis by (intro conjI)
qed

text \<open>The ranking adds up all groups: with an utterance that also mentions PVC, a glue in
  stock scores as much as the only sealing tape in stock and stays in front of it.\<close>

theorem teflon_not_first_counterexample:
  "test_any teflon_group (pick_text ''cinta teflon para pvc'' (normalizeQuery ''cinta teflon para pvc''))
   \<and> filter (\<lambda>c. test_any teflon_group (hay c) \<and> 0 < stock c)
        [demo_product ''PVC-GLUE-240'' ''Pegamento PVC'' 5, demo_product ''PTF-12'' ''Cinta de teflon'' 7]
      = [demo_product ''PTF-12'' ''Cinta de teflon'' 7]
   \<and> map sku (pickByKeywords ''cinta teflon para pvc'' (normalizeQuery ''cinta teflon para pvc'')
        [demo_product ''PVC-GLUE-240'' ''Pegamento PVC'' 5, demo_product ''PTF-12'' ''Cinta de teflon'' 7] 3)
      = [''PVC-GLUE-240'', ''PTF-12'']"
  by code_simp

section \<open>Reconciliation: auxiliary facts\<close>

lemma list_all_update:
  "P (k, v) \<Longrightarrow> list_all P m \<Longrightarrow> list_all P (AList.update k v m)"
  by (induction m) auto

lemma wf_bySku_update:
  "wf_bySku m \<Longrightarrow> wf_bySku (AList.update (sku p) p m)"
  unfolding wf_bySku_def by (simp add: distinct_update list_all_update)

lemma wf_bySku_foldl:
  "wf_bySku m \<Longrightarrow> wf_bySku (foldl (\<lambda>m p. AList.update (sku p) p m) m rows)"
  by (induction rows arbitrary: m) (auto simp: wf_bySku_update)

lemma wf_bySku_of: "wf_bySku (bySku_of rows)"
  unfolding bySku_of_def by (rule wf_bySku_foldl) (simp add: wf_bySku_def)

lemma wf_map_of_sku:
  "wf_bySku m \<Longrightarrow> map_of m s = Some src \<Longrightarrow> sku src = s"
  unfolding wf_bySku_def by (auto simp: list_all_iff dest!: map_of_SomeD)

lemma wf_candidateSkus: "wf_bySku m \<Longrightarrow> candidateSkus_of m = fst ` set m"
  unfolding wf_bySku_def candidateSkus_of_def candidates_of_def
  by (force simp: list_all_iff)

lemma wf_candidate_lookup:
  "wf_bySku m \<Longrightarrow> s \<in> candidateSkus_of m \<Longrightarrow> \<exists>src. map_of m s = Some src"
  by (simp add: wf_candidateSkus) (metis domIff dom_map_of_conv_image_fst not_Some_eq)

lemma wf_lookup_candidate:
  "wf_bySku m \<Longrightarrow> map_of m s = Some src \<Longrightarrow> s \<in> candidateSkus_of m"
  by (simp add: wf_candidateSkus) (metis domI dom_map_of_conv_image_fst)

lemma wf_candidates_distinct: "wf_bySku m \<Longrightarrow> distinct (map sku (candidates_of m))"
proof -
  assume wf: "wf_bySku m"
  then have "map sku (candidates_of m) = map fst m"
    unfolding wf_bySku_def candidates_of_def by (simp add: list_all_iff)
  with wf show ?thesis by (simp add: wf_bySku_def)
qed

lemma candidate_in_skus: "c \<in> set (candidates_of m) \<Longrightarrow> sku c \<in> candidateSkus_of m"
  by (simp add: candidateSkus_of_def)

lemma bySku_of_keys: "fst ` set (bySku_of rows) = sku ` set rows"
proof -
  have "fst ` set (foldl (\<lambda>m p. AList.update (sku p) p m) m rows) = fst ` set m \<union> sku ` set rows" for m
    by (induction rows arbitrary: m) (auto simp: AList.dom_update)
  then show ?thesis by (simp add: bySku_of_def)
qed

lemma cart_distinct_foldl:
  "distinct (map fst m) \<Longrightarrow>
   distinct (map fst (foldl (\<lambda>m ci. AList.update (cart_sku ci) (cart_qty_of ci) m) m cart))"
  by (induction cart arbitrary: m) (auto simp: distinct_update)

lemma cartBySku_distinct: "distinct (map fst (cartBySku_of cart))"
  unfolding cartBySku_of_def by (rule cart_distinct_foldl) simp

lemma floored_max_one [simp]: "floored (max_one x)"
  by (simp add: floored_def max_one_def split: jsnum.splits)

lemma floored_JNum [simp]: "floored (JNum n) \<longleftrightarrow> 1 \<le> n"
  by (auto simp: floored_def max_one_def)

lemma floored_JNaN [simp]: "floored JNaN"
  by (simp add: floored_def max_one_def)

lemma floored_cases: "floored x \<Longrightarrow> x = JNaN \<or> (\<exists>n. x = JNum n \<and> 1 \<le> n)"
  by (cases x) simp_all

lemma of_jsnum_JNum [simp]: "of_jsnum (JNum n) = number n"
  by (simp add: of_jsnum_def)

lemma number_inject [simp]: "number m = number n \<longleftrightarrow> m = n"
  by (auto simp: number_def)

lemma number_not_NaN [simp]: "number n \<noteq> of_jsnum JNaN" "of_jsnum JNaN \<noteq> number n"
  by (simp_all add: number_def of_jsnum_def)

lemma of_jsnum_inject [simp]: "of_jsnum x = of_jsnum y \<longleftrightarrow> x = y"
  by (cases x; cases y) (auto simp del: of_jsnum_JNum simp add: of_jsnum_def number_def)

lemma cart_qty_of_pos: "floored (cart_qty_of ci)"
  by (simp add: cart_qty_of_def)

lemma cart_pos_foldl:
  "list_all (\<lambda>e. floored (snd e)) m \<Longrightarrow>
   list_all (\<lambda>e. floored (snd e))
     (foldl (\<lambda>m ci. AList.update (cart_sku ci) (cart_qty_of ci) m) m cart)"
proof (induction cart arbitrary: m)
  case Nil then show ?case by simp
next
  case (Cons ci cart)
  have "list_all (\<lambda>e. floored (snd e)) (AList.update k v m)"
    if "floored v" "list_all (\<lambda>e. floored (snd e)) m" for k and v and m :: "jsnum js_map"
    using that by (induction m) auto
  with Cons show ?case by (simp add: cart_qty_of_pos)
qed

lemma cartBySku_pos: "(s, n) \<in> set (cartBySku_of cart) \<Longrightarrow> floored n"
  using cart_pos_foldl [of "[]" cart] by (auto simp: cartBySku_of_def list_all_iff)

lemma cartBySku_lookup_pos: "map_of (cartBySku_of cart) s = Some n \<Longrightarrow> floored n"
  by (auto dest!: map_of_SomeD cartBySku_pos)

lemma cartBySku_keys: "fst ` set (cartBySku_of cart) = cart_sku ` set cart"
proof -
  have "fst ` set (foldl (\<lambda>m ci. AList.update (cart_sku ci) (cart_qty_of ci) m) m cart)
        = fst ` set m \<union> cart_sku ` set cart" for m
    by (induction cart arbitrary: m) (auto simp: AList.dom_update)
  then show ?thesis by (simp add: cartBySku_of_def)
qed

lemma find_app:
  "find P (xs @ ys) = (case find P xs of Some x \<Rightarrow> Some x | None \<Rightarrow> find P ys)"
  by (induction xs) auto

lemma cartBySku_lookup:
  "map_of (cartBySku_of cart) s = map_option cart_qty_of (find (\<lambda>ci. cart_sku ci = s) (rev cart))"
proof -
  have "map_of (foldl (\<lambda>m ci. AList.update (cart_sku ci) (cart_qty_of ci) m) m cart) s
        = (case find (\<lambda>ci. cart_sku ci = s) (rev cart) of
             Some ci \<Rightarrow> Some (cart_qty_of ci) | None \<Rightarrow> map_of m s)" for m
    by (induction cart arbitrary: m) (auto simp: update_conv' find_app split: option.splits)
  from this [of "[]"] show ?thesis by (simp add: cartBySku_of_def split: option.splits)
qed

lemma cart_pos_of: "cart_pos (cartBySku_of cart)"
  using cartBySku_distinct [of cart] cartBySku_pos [of _ _ cart] by (auto simp: cart_pos_def)

lemma cart_pos_lookup: "cart_pos C \<Longrightarrow> map_of C s = Some n \<Longrightarrow> floored n"
  by (auto simp: cart_pos_def dest!: map_of_SomeD)

lemma cart_pos_entry: "cart_pos C \<Longrightarrow> (s, n) \<in> set C \<Longrightarrow> map_of C s = Some n \<and> floored n"
  by (auto simp: cart_pos_def)

lemma sku_new_line [simp]: "sku (new_line s src n w) = s"
  by (simp add: new_line_def)

lemma qty_new_line [simp]: "qty (new_line s src n w) = of_jsnum n"
  by (simp add: new_line_def)

lemma has_sku_iff: "has_sku s b \<longleftrightarrow> s \<in> sku ` set b"
  by (auto simp: has_sku_def list_ex_iff)

lemma has_sku_append [simp]: "has_sku s (b @ c) \<longleftrightarrow> has_sku s b \<or> has_sku s c"
  by (auto simp: has_sku_iff)

lemma covered_append: "covered K C b \<Longrightarrow> covered K C (b @ c)"
  by (auto simp: covered_def)

lemma covered_not_in_cart:
  "covered K C b \<Longrightarrow> \<not> has_sku s b \<Longrightarrow> s \<in> K \<Longrightarrow> map_of C s = None"
  by (auto simp: covered_def map_of_eq_None_iff)

lemma cart_line_ok:
  "cart_pos C \<Longrightarrow> (s, n) \<in> set C \<Longrightarrow> s \<in> K \<Longrightarrow> line_ok K C P0 pin (new_line s src n w)"
  by (auto simp: line_ok_def dest: cart_pos_entry)

lemma one_line_ok:
  "s \<in> K \<or> pin s \<Longrightarrow> (s \<in> K \<longrightarrow> map_of C s = None)
   \<Longrightarrow> line_ok K C P0 pin (new_line s src (JNum 1) w)"
proof -
  have "\<exists>x. floored x \<and> number 1 = of_jsnum x"
    by (rule exI [of _ "JNum 1"]) simp
  then show "s \<in> K \<or> pin s \<Longrightarrow> (s \<in> K \<longrightarrow> map_of C s = None)
    \<Longrightarrow> line_ok K C P0 pin (new_line s src (JNum 1) w)"
    unfolding line_ok_def by auto
qed

lemma sku_requantify [simp]: "sku (requantify C l) = sku l"
  by (simp add: requantify_def split: option.splits)

lemma requantify_absent: "map_of C (sku l) = None \<Longrightarrow> requantify C l = l"
  by (simp add: requantify_def)

lemma requantify_NaN: "map_of C (sku l) = Some JNaN \<Longrightarrow> requantify C l = l"
  by (simp add: requantify_def truthy_def)

lemma requantify_JNum:
  "map_of C (sku l) = Some (JNum n) \<Longrightarrow> 1 \<le> n \<Longrightarrow> requantify C l = l\<lparr>qty := number n\<rparr>"
  by (simp add: requantify_def truthy_def max_one_def)

lemma line_ok_set_qty:
  assumes "line_ok K C P0 pin l" "map_of C (sku l) = Some (JNum n)" "1 \<le> n"
  shows "line_ok K C P0 pin (l\<lparr>qty := number n\<rparr>)"
proof -
  have "floored (JNum n) \<and> number n = of_jsnum (JNum n)" using assms(3) by simp
  then have "\<exists>x. floored x \<and> number n = of_jsnum x" by (rule exI)
  with assms(1,2) show ?thesis by (simp add: line_ok_def)
qed

lemma requantify_ok:
  assumes "cart_pos C" "line_ok K C P0 pin l"
  shows "line_ok K C P0 pin (requantify C l)"
proof (cases "map_of C (sku l)")
  case None
  with assms(2) show ?thesis by (simp add: requantify_absent)
next
  case (Some c)
  then have "floored c" using assms(1) by (rule cart_pos_lookup [rotated])
  then consider "c = JNaN" | n where "c = JNum n" "1 \<le> n" using floored_cases by blast
  then show ?thesis
  proof cases
    case 1
    with Some assms(2) show ?thesis by (simp add: requantify_NaN)
  next
    case 2
    with Some assms(2) show ?thesis by (simp add: requantify_JNum line_ok_set_qty)
  qed
qed

lemma sku_preferred_line [simp]: "sku (preferred_line src) = sku src"
  by (simp add: preferred_line_def)

lemma requantify_pick_ok:
  assumes "cart_pos C" "sku src \<in> K"
  shows "line_ok K C P0 pin (requantify C (preferred_line src))"
proof (cases "map_of C (sku src)")
  case None
  then show ?thesis using assms(2)
    by (simp add: requantify_absent) (simp add: preferred_line_def one_line_ok)
next
  case (Some c)
  then have "floored c" using assms(1) by (rule cart_pos_lookup [rotated])
  then consider "c = JNaN" | n where "c = JNum n" "1 \<le> n" using floored_cases by blast
  then show ?thesis
  proof cases
    case 1
    have "\<exists>x. floored x \<and> number 1 = of_jsnum x"
      by (rule exI [of _ "JNum 1"]) simp
    with 1 Some assms(2) show ?thesis
      by (simp add: requantify_NaN) (simp add: line_ok_def preferred_line_def)
  next
    case 2
    have "\<exists>x. floored x \<and> number n = of_jsnum x"
      using 2 by (intro exI [of _ "JNum n"]) simp
    with 2 Some assms(2) show ?thesis
      by (simp add: requantify_JNum) (simp add: line_ok_def preferred_line_def)
  qed
qed

lemma sku_prefer_client_qty [simp]: "sku (prefer_client_qty C x) = sku x"
  by (simp add: prefer_client_qty_def)

lemma validated_line_ok:
  assumes "cart_pos C" "sku x \<in> K" "prefer_client_qty C x \<in> P0"
  shows "line_ok K C P0 pin (prefer_client_qty C x)"
proof (cases "map_of C (sku x)")
  case None
  have "\<exists>y. floored y \<and> of_jsnum (max_one (number_nullish_one (qty x))) = of_jsnum y"
    by (rule exI [of _ "max_one (number_nullish_one (qty x))"]) simp
  with None assms(2,3) show ?thesis
    unfolding line_ok_def by (auto simp: prefer_client_qty_def)
next
  case (Some c)
  then have c: "floored c" using assms(1) by (rule cart_pos_lookup [rotated])
  then have m: "max_one c = c" by (simp add: floored_def)
  have "\<exists>y. floored y \<and> of_jsnum c = of_jsnum y" using c by (intro exI [of _ c]) simp
  with assms(2,3) Some m show ?thesis
    unfolding line_ok_def by (auto simp: prefer_client_qty_def)
qed

lemma filterToCandidates_sku: "x \<in> set (filterToCandidates K arr) \<Longrightarrow> sku x \<in> K"
  by (auto simp: filterToCandidates_def map_filter_def split: option.splits if_splits)

lemma foldl_append_origin:
  assumes step: "\<And>b e. f b e = b \<or> (\<exists>l. G e l \<and> f b e = b @ [l])"
  shows "l \<in> set (foldl f b es) \<Longrightarrow> l \<in> set b \<or> (\<exists>e \<in> set es. G e l)"
proof (induction es arbitrary: b)
  case Nil then show ?case by simp
next
  case (Cons e es)
  from Cons.prems have "l \<in> set (foldl f (f b e) es)" by simp
  then have "l \<in> set (f b e) \<or> (\<exists>e \<in> set es. G e l)" by (rule Cons.IH)
  moreover have "l \<in> set (f b e) \<Longrightarrow> l \<in> set b \<or> G e l"
    using step [of b e] by auto
  ultimately show ?case by auto
qed

lemma foldl_append_mono:
  assumes step: "\<And>b e. f b e = b \<or> (\<exists>l. f b e = b @ [l])"
  shows "set b \<subseteq> set (foldl f b es)"
proof (induction es arbitrary: b)
  case Nil then show ?case by simp
next
  case (Cons e es)
  have "set b \<subseteq> set (f b e)" using step [of b e] by auto
  also have "\<dots> \<subseteq> set (foldl f (f b e) es)" by (rule Cons.IH)
  finally show ?case by simp
qed

lemma foldl_append_distinct:
  assumes step: "\<And>b e. f b e = b \<or> (\<exists>l. sku l \<notin> sku ` set b \<and> f b e = b @ [l])"
  shows "distinct (map sku b) \<Longrightarrow> distinct (map sku (foldl f b es))"
proof (induction es arbitrary: b)
  case Nil then show ?case by simp
next
  case (Cons e es)
  have "distinct (map sku (f b e))" using step [of b e] Cons.prems by auto
  then show ?case using Cons.IH [of "f b e"] by simp
qed

lemma readd_step_cases:
  "readd_cart_step K M b e = b
   \<or> (\<exists>l. (\<exists>src. fst e \<in> K \<and> \<not> has_sku (fst e) b \<and> map_of M (fst e) = Some src
             \<and> l = new_line (fst e) src (snd e) why_kept)
          \<and> readd_cart_step K M b e = b @ [l])"
  by (cases e) (simp add: readd_cart_step_def split: option.splits)

lemma preserve_step_cases:
  "preserve_step K M b e = b
   \<or> (\<exists>l. (\<exists>src. fst e \<in> K \<and> \<not> has_sku (fst e) b \<and> map_of M (fst e) = Some src
             \<and> l = new_line (sku src) src (snd e) why_previous)
          \<and> preserve_step K M b e = b @ [l])"
  by (cases e) (simp add: preserve_step_def split: option.splits)

lemma restore_step_cases:
  "restore_step K M b e = b
   \<or> (\<exists>l. (\<exists>src. fst e \<in> K \<and> map_of M (fst e) = Some src
             \<and> l = new_line (sku src) src (snd e) why_kept)
          \<and> restore_step K M b e = b @ [l])"
  by (cases e) (simp add: restore_step_def split: option.splits)

lemma readd_mono: "set b \<subseteq> set (foldl (readd_cart_step K M) b es)"
  by (rule foldl_append_mono) (use readd_step_cases in blast)

lemma readd_distinct:
  "distinct (map sku b) \<Longrightarrow> distinct (map sku (foldl (readd_cart_step K M) b es))"
proof (rule foldl_append_distinct)
  fix b e
  show "readd_cart_step K M b e = b
        \<or> (\<exists>l. sku l \<notin> sku ` set b \<and> readd_cart_step K M b e = b @ [l])"
    using readd_step_cases [of K M b e] by (auto simp: has_sku_iff)
qed

lemma readd_origin:
  assumes "l \<in> set (foldl (readd_cart_step K M) b es)"
  shows "l \<in> set b \<or> (\<exists>s n src. (s, n) \<in> set es \<and> s \<in> K \<and> l = new_line s src n why_kept)"
proof -
  let ?G = "\<lambda>e l. \<exists>src. fst e \<in> K \<and> l = new_line (fst e) src (snd e) why_kept"
  have "l \<in> set b \<or> (\<exists>e \<in> set es. ?G e l)"
  proof (rule foldl_append_origin [where f = "readd_cart_step K M" and G = ?G])
    fix b e
    show "readd_cart_step K M b e = b \<or> (\<exists>l. ?G e l \<and> readd_cart_step K M b e = b @ [l])"
      using readd_step_cases [of K M b e] by blast
  qed (rule assms)
  then show ?thesis by force
qed

lemma readd_covers:
  assumes wf: "wf_bySku M" and K: "K = candidateSkus_of M"
  shows "covered K C (foldl (readd_cart_step K M) b C)"
proof -
  have "(s, n) \<in> set es \<Longrightarrow> s \<in> K \<Longrightarrow> has_sku s (foldl (readd_cart_step K M) b es)"
    for s n es b
  proof (induction es arbitrary: b)
    case Nil then show ?case by simp
  next
    case (Cons e es)
    show ?case
    proof (cases "e = (s, n)")
      case True
      obtain src where src: "map_of M s = Some src"
        using wf_candidate_lookup [OF wf] Cons.prems(2) K by blast
      have "has_sku s (readd_cart_step K M b e)"
      proof (cases "has_sku s b")
        case h: True
        then show ?thesis using True by (simp add: readd_cart_step_def)
      next
        case False
        then show ?thesis using True src Cons.prems(2)
          by (simp add: readd_cart_step_def has_sku_def)
      qed
      then have "s \<in> sku ` set (readd_cart_step K M b e)" by (simp add: has_sku_iff)
      with readd_mono [of "readd_cart_step K M b e" K M es] show ?thesis
        by (auto simp: has_sku_iff)
    next
      case False
      with Cons show ?thesis by auto
    qed
  qed
  then show ?thesis by (auto simp: covered_def)
qed

lemma find_SomeD: "find P xs = Some x \<Longrightarrow> x \<in> set xs \<and> P x"
  by (induction xs) (auto split: if_splits)

lemma pushIf_cases:
  "pushIf cands pred w b = b
   \<or> (\<exists>pick. pick \<in> set cands \<and> pred pick \<and> \<not> has_sku (sku pick) b
        \<and> pushIf cands pred w b = b @ [new_line (sku pick) pick (JNum 1) w])"
  by (auto simp: pushIf_def split: option.splits dest: find_SomeD)

lemma teflon_fallback_cases:
  "teflon_fallback products b = b
   \<or> (\<exists>t. t \<in> set products \<and> sku t = ''PTF-12'' \<and> \<not> has_sku (sku t) b
        \<and> teflon_fallback products b = b @ [new_line (sku t) t (JNum 1) why_teflon])"
proof -
  let ?tf = "fetch_in TEFLON_SKUS products"
  define chosen where
    "chosen = (case find (\<lambda>p. stock p > 0) ?tf of
                 Some p \<Rightarrow> Some p
               | None \<Rightarrow> (case ?tf of [] \<Rightarrow> None | p # _ \<Rightarrow> Some p))"
  have eq: "teflon_fallback products b =
              (case chosen of
                 Some p \<Rightarrow> if \<not> has_sku (sku p) b
                           then b @ [new_line (sku p) p (JNum 1) why_teflon] else b
               | None \<Rightarrow> b)"
    by (simp add: teflon_fallback_def chosen_def Let_def)
  have in_tf: "t \<in> set products \<and> sku t = ''PTF-12''" if "chosen = Some t" for t
  proof -
    from that have "t \<in> set ?tf"
      by (auto simp: chosen_def split: option.splits list.splits dest: find_SomeD)
    then show ?thesis by (simp add: fetch_in_def TEFLON_SKUS_def)
  qed
  show ?thesis
  proof (cases chosen)
    case None
    with eq show ?thesis by simp
  next
    case (Some t)
    show ?thesis
    proof (cases "has_sku (sku t) b")
      case True
      with eq Some show ?thesis by simp
    next
      case False
      with eq Some have "teflon_fallback products b = b @ [new_line (sku t) t (JNum 1) why_teflon]"
        by simp
      with in_tf [OF Some] False show ?thesis by blast
    qed
  qed
qed

lemma ensure_spare_cases:
  assumes wf: "wf_bySku M"
  shows "fst (ensure_spare M products b) = b
   \<or> (\<exists>rep. sku rep = ''REP-CORTA-001''
          \<and> (map_of M ''REP-CORTA-001'' = Some rep
              \<or> (map_of M ''REP-CORTA-001'' = None \<and> rep \<in> set products))
          \<and> fst (ensure_spare M products b) = b @ [new_line (sku rep) rep (JNum 1) why_spare])"
proof (cases "map_of M ''REP-CORTA-001''")
  case (Some rep)
  then have "sku rep = ''REP-CORTA-001''" using wf by (rule wf_map_of_sku [rotated])
  with Some show ?thesis by (auto simp: ensure_spare_def)
next
  case None
  show ?thesis
  proof (cases "fetch_eq ''REP-CORTA-001'' products")
    case n: None
    with None show ?thesis by (simp add: ensure_spare_def)
  next
    case (Some rep)
    then have "rep \<in> set products \<and> sku rep = ''REP-CORTA-001''"
      unfolding fetch_eq_def by (auto dest: find_SomeD)
    with None Some show ?thesis by (auto simp: ensure_spare_def)
  qed
qed

lemma ensure_spare_present:
  "map_of M ''REP-CORTA-001'' = Some rep \<Longrightarrow>
   fst (ensure_spare M products b) = b @ [new_line (sku rep) rep (JNum 1) why_spare]"
  by (simp add: ensure_spare_def)

lemma ensured_inv_push:
  assumes "ensured_inv K C P0 pin e b"
    and "b' = b \<or> (\<exists>l. line_ok K C P0 pin l \<and> \<not> has_sku (sku l) b \<and> b' = b @ [l])"
  shows "ensured_inv K C P0 pin e b'"
  using assms by (auto simp: ensured_inv_def covered_def has_sku_iff)

lemma add_path_basket:
  "basket (fst (add_path q C M products p)) =
     (let K = candidateSkus_of M;
          e2 = foldl (readd_cart_step K M) (filter (\<lambda>it. sku it \<in> K) (basket p)) C;
          e3 = (if itest_any spare_words q
                then pushIf (candidates_of M) is_cutter_spare why_spare e2 else e2);
          e4 = (if itest_any teflon_words q
                then pushIf (candidates_of M) is_teflon why_teflon e3 else e3);
          e5 = (if itest_any teflon_words q
                   \<and> \<not> list_ex (\<lambda>x. itest_any teflon_words (name x @ '' '' @ sku x)) e4
                then teflon_fallback products e4 else e4)
      in if itest_any spare_words q \<and> map_of C ''CORTA-COBRE-001'' \<noteq> None
            \<and> \<not> has_sku ''REP-CORTA-001'' e5
         then fst (ensure_spare M products e5) else e5)"
  by (simp add: add_path_def Let_def case_prod_beta)

lemma add_path_inv:
  assumes wf: "wf_bySku M" and K: "K = candidateSkus_of M" and cp: "cart_pos C"
    and pinA: "\<And>s. s = ''PTF-12'' \<or> s = ''REP-CORTA-001'' \<Longrightarrow> s \<in> sku ` set products \<Longrightarrow> pin s"
    and ok0: "list_all (line_ok K C P0 pin) (basket p)"
  shows "ensured_inv K C P0 pin (filter (\<lambda>it. sku it \<in> K) (basket p))
           (basket (fst (add_path q C M products p)))"
proof -
  let ?J = "ensured_inv K C P0 pin (filter (\<lambda>it. sku it \<in> K) (basket p))"
  define e1 where "e1 = filter (\<lambda>it. sku it \<in> K) (basket p)"
  define e2 where "e2 = foldl (readd_cart_step K M) e1 C"
  define e3 where "e3 = (if itest_any spare_words q
                then pushIf (candidates_of M) is_cutter_spare why_spare e2 else e2)"
  define e4 where "e4 = (if itest_any teflon_words q
                then pushIf (candidates_of M) is_teflon why_teflon e3 else e3)"
  define e5 where "e5 = (if itest_any teflon_words q
                   \<and> \<not> list_ex (\<lambda>x. itest_any teflon_words (name x @ '' '' @ sku x)) e4
                then teflon_fallback products e4 else e4)"
  define B where "B = (if itest_any spare_words q \<and> map_of C ''CORTA-COBRE-001'' \<noteq> None
            \<and> \<not> has_sku ''REP-CORTA-001'' e5
         then fst (ensure_spare M products e5) else e5)"
  have B: "basket (fst (add_path q C M products p)) = B"
    unfolding add_path_basket Let_def B_def e5_def e4_def e3_def e2_def e1_def K by (rule refl)
  have ok1: "list_all (line_ok K C P0 pin) e1"
    using ok0 by (auto simp: e1_def list_all_iff)
  have J2: "?J e2"
  proof -
    have "line_ok K C P0 pin l" if "l \<in> set e2" for l
    proof -
      from that readd_origin [of l K M e1 C]
      consider "l \<in> set e1" | s n src where "(s, n) \<in> set C" "s \<in> K" "l = new_line s src n why_kept"
        unfolding e2_def by blast
      then show ?thesis
      proof cases
        case 1 with ok1 show ?thesis by (simp add: list_all_iff)
      next
        case 2 with cp show ?thesis by (simp add: cart_line_ok)
      qed
    qed
    moreover have "covered K C e2" unfolding e2_def using wf K by (rule readd_covers)
    moreover have "set e1 \<subseteq> set e2" unfolding e2_def by (rule readd_mono)
    moreover have "distinct (map sku e1) \<Longrightarrow> distinct (map sku e2)"
      unfolding e2_def by (rule readd_distinct)
    ultimately show ?thesis by (simp add: ensured_inv_def list_all_iff e1_def)
  qed
  have push: "?J (pushIf (candidates_of M) pred w b)" if "?J b" for pred w b
  proof (rule ensured_inv_push [OF that])
    from pushIf_cases [of "candidates_of M" pred w b]
    show "pushIf (candidates_of M) pred w b = b
          \<or> (\<exists>l. line_ok K C P0 pin l \<and> \<not> has_sku (sku l) b
                \<and> pushIf (candidates_of M) pred w b = b @ [l])"
    proof
      assume "pushIf (candidates_of M) pred w b = b" then show ?thesis ..
    next
      assume "\<exists>pick. pick \<in> set (candidates_of M) \<and> pred pick \<and> \<not> has_sku (sku pick) b
        \<and> pushIf (candidates_of M) pred w b = b @ [new_line (sku pick) pick (JNum 1) w]"
      then obtain pick where pk: "pick \<in> set (candidates_of M)" "\<not> has_sku (sku pick) b"
        "pushIf (candidates_of M) pred w b = b @ [new_line (sku pick) pick (JNum 1) w]" by blast
      have inK: "sku pick \<in> K" using pk(1) K by (simp add: candidate_in_skus)
      have "covered K C b" using that by (simp add: ensured_inv_def)
      then have "map_of C (sku pick) = None" using pk(2) inK by (rule covered_not_in_cart)
      with inK have "line_ok K C P0 pin (new_line (sku pick) pick (JNum 1) w)"
        by (simp add: one_line_ok)
      with pk(2,3) show ?thesis by auto
    qed
  qed
  have J3: "?J e3" unfolding e3_def using J2 push by simp
  have J4: "?J e4" unfolding e4_def using J3 push by simp
  have J5: "?J e5"
  proof -
    have "?J (teflon_fallback products e4)"
    proof (rule ensured_inv_push [OF J4])
      from teflon_fallback_cases [of products e4]
      show "teflon_fallback products e4 = e4
            \<or> (\<exists>l. line_ok K C P0 pin l \<and> \<not> has_sku (sku l) e4
                  \<and> teflon_fallback products e4 = e4 @ [l])"
      proof
        assume "teflon_fallback products e4 = e4" then show ?thesis ..
      next
        assume "\<exists>t. t \<in> set products \<and> sku t = ''PTF-12'' \<and> \<not> has_sku (sku t) e4
          \<and> teflon_fallback products e4 = e4 @ [new_line (sku t) t (JNum 1) why_teflon]"
        then obtain t where t: "t \<in> set products" "sku t = ''PTF-12''" "\<not> has_sku (sku t) e4"
          "teflon_fallback products e4 = e4 @ [new_line (sku t) t (JNum 1) why_teflon]" by blast
        have "sku t \<in> sku ` set products" using t(1) by simp
        then have "pin (sku t)" using t(2) by (intro pinA) simp_all
        moreover have "sku t \<in> K \<longrightarrow> map_of C (sku t) = None"
          using J4 t(3) by (auto simp: ensured_inv_def intro: covered_not_in_cart)
        ultimately have "line_ok K C P0 pin (new_line (sku t) t (JNum 1) why_teflon)"
          by (simp add: one_line_ok)
        with t(3,4) show ?thesis by auto
      qed
    qed
    with J4 show ?thesis unfolding e5_def by simp
  qed
  have JB: "?J B"
  proof (cases "itest_any spare_words q \<and> map_of C ''CORTA-COBRE-001'' \<noteq> None
            \<and> \<not> has_sku ''REP-CORTA-001'' e5")
    case False
    have "B = e5" unfolding B_def using False by auto
    with J5 show ?thesis by simp
  next
    case True
    have BT: "B = fst (ensure_spare M products e5)" unfolding B_def using True by simp
    have "?J (fst (ensure_spare M products e5))"
    proof (rule ensured_inv_push [OF J5])
      from ensure_spare_cases [OF wf, of products e5]
      show "fst (ensure_spare M products e5) = e5
            \<or> (\<exists>l. line_ok K C P0 pin l \<and> \<not> has_sku (sku l) e5
                  \<and> fst (ensure_spare M products e5) = e5 @ [l])"
      proof
        assume "fst (ensure_spare M products e5) = e5" then show ?thesis ..
      next
        assume "\<exists>rep. sku rep = ''REP-CORTA-001''
          \<and> (map_of M ''REP-CORTA-001'' = Some rep
              \<or> (map_of M ''REP-CORTA-001'' = None \<and> rep \<in> set products))
          \<and> fst (ensure_spare M products e5) = e5 @ [new_line (sku rep) rep (JNum 1) why_spare]"
        then obtain rep where r: "sku rep = ''REP-CORTA-001''"
          "map_of M ''REP-CORTA-001'' = Some rep
              \<or> (map_of M ''REP-CORTA-001'' = None \<and> rep \<in> set products)"
          "fst (ensure_spare M products e5) = e5 @ [new_line (sku rep) rep (JNum 1) why_spare]" by blast
        have nh: "\<not> has_sku (sku rep) e5" using True r(1) by simp
        have "sku rep \<in> K \<or> pin (sku rep)"
        proof (cases "map_of M ''REP-CORTA-001''")
          case (Some x)
          then have "''REP-CORTA-001'' \<in> K" using wf_lookup_candidate [OF wf] K by simp
          then show ?thesis using r(1) by simp
        next
          case None
          with r(2) have "sku rep \<in> sku ` set products" by simp
          then have "pin (sku rep)" using r(1) by (intro pinA) simp_all
          then show ?thesis ..
        qed
        moreover have "sku rep \<in> K \<longrightarrow> map_of C (sku rep) = None"
          using J5 nh by (auto simp: ensured_inv_def intro: covered_not_in_cart)
        ultimately have "line_ok K C P0 pin (new_line (sku rep) rep (JNum 1) why_spare)"
          by (simp add: one_line_ok)
        with nh r(3) show ?thesis by auto
      qed
    qed
    with BT show ?thesis by simp
  qed
  with B show ?thesis by simp
qed

lemma add_path_has_spare:
  assumes wf: "wf_bySku M" and K: "K = candidateSkus_of M"
    and q: "itest_any spare_words q" and c: "map_of C ''CORTA-COBRE-001'' \<noteq> None"
    and r: "''REP-CORTA-001'' \<in> K"
  shows "has_sku ''REP-CORTA-001'' (basket (fst (add_path q C M products p)))"
proof -
  obtain rep where rep: "map_of M ''REP-CORTA-001'' = Some rep"
    using wf_candidate_lookup [OF wf] r K by blast
  then have "sku rep = ''REP-CORTA-001''" using wf by (rule wf_map_of_sku [rotated])
  then have "has_sku ''REP-CORTA-001'' (fst (ensure_spare M products e))" for e
    using ensure_spare_present [OF rep, of products e] by (simp add: has_sku_def)
  then show ?thesis
    using q c unfolding add_path_basket Let_def by (simp del: has_sku_append)
qed

lemma pickByKeywords_subset: "set (pickByKeywords q qNorm cands mx) \<subseteq> set cands"
proof -
  have "set (pickByKeywords q qNorm cands mx)
        \<subseteq> set (sort_key (\<lambda>c. - spec_score (pick_text q qNorm) c)
                 (filter (\<lambda>c. 0 < spec_score (pick_text q qNorm) c) cands))"
    unfolding pickByKeywords_spec spec_pick_def by (rule set_take_subset)
  then show ?thesis by auto
qed

lemma distinct_map_sort_key:
  "distinct (map f (sort_key g xs)) = distinct (map f xs)"
proof -
  have "mset (map f (sort_key g xs)) = mset (map f xs)" by simp
  then show ?thesis by (rule mset_eq_imp_distinct_iff)
qed

lemma pickByKeywords_distinct:
  assumes "distinct (map sku cands)"
  shows "distinct (map sku (pickByKeywords q qNorm cands mx))"
proof -
  let ?pos = "filter (\<lambda>c. 0 < spec_score (pick_text q qNorm) c) cands"
  have "distinct (map sku ?pos)" using assms by (rule distinct_map_filter)
  then have "distinct (map sku (sort_key (\<lambda>c. - spec_score (pick_text q qNorm) c) ?pos))"
    by (simp only: distinct_map_sort_key)
  then have "distinct (take mx (map sku (sort_key (\<lambda>c. - spec_score (pick_text q qNorm) c) ?pos)))"
    by (rule distinct_take)
  then show ?thesis by (simp add: pickByKeywords_spec spec_pick_def take_map)
qed

lemma append_missing_origin:
  assumes "l \<in> set (append_missing picks b)"
  shows "l \<in> set b \<or> (\<exists>src \<in> set picks. l = preferred_line src)"
proof -
  let ?f = "\<lambda>b src. if \<not> has_sku (sku src) b then b @ [preferred_line src] else b"
  have "l \<in> set b \<or> (\<exists>src \<in> set picks. l = preferred_line src)"
  proof (rule foldl_append_origin [where f = ?f and G = "\<lambda>src l. l = preferred_line src"])
    fix b e
    show "?f b e = b \<or> (\<exists>l. l = preferred_line e \<and> ?f b e = b @ [l])" by simp
  qed (use assms in \<open>simp add: append_missing_def\<close>)
  then show ?thesis .
qed

lemma append_missing_mono: "set b \<subseteq> set (append_missing picks b)"
  unfolding append_missing_def by (rule foldl_append_mono) simp

lemma append_missing_distinct:
  "distinct (map sku b) \<Longrightarrow> distinct (map sku (append_missing picks b))"
  unfolding append_missing_def
  by (rule foldl_append_distinct) (simp_all add: has_sku_iff)

lemma map_sku_requantify [simp]: "map sku (map (requantify C) b) = map sku b"
  by (simp add: comp_def)

lemma map_sku_preferred [simp]: "map sku (map preferred_line ps) = map sku ps"
  by (simp add: comp_def)

lemma if_chain_cases:
  "(if a then x else if b then (if c then y else z) else z) = x
   \<or> (if a then x else if b then (if c then y else z) else z) = y
   \<or> (if a then x else if b then (if c then y else z) else z) = z"
  by simp

lemma force_replace_shape:
  "\<exists>b'. force_replace q cands C b = map (requantify C) b'
        \<and> (b' = map preferred_line (pickByKeywords q (normalizeQuery q) cands 3)
            \<or> b' = append_missing (pickByKeywords q (normalizeQuery q) cands 3)
                     (filter (\<lambda>x. sku x \<notin> set (map fst C)) b)
            \<or> b' = filter (\<lambda>x. sku x \<notin> set (map fst C)) b)"
proof -
  let ?kept = "filter (\<lambda>x. sku x \<notin> set (map fst C)) b"
  let ?picks = "pickByKeywords q (normalizeQuery q) cands 3"
  define cnd where "cnd = ((itest_any union_words q \<and> \<not> names_any union_words ?kept)
     \<or> (itest_any teflon_words q \<and> \<not> names_any teflon_words ?kept)
     \<or> (itest_any spare_words q \<and> \<not> names_any spare_words ?kept))"
  define b' where "b' = (if length ?kept = 0 then map preferred_line ?picks
       else if mentionsAlternates q then (if cnd then append_missing ?picks ?kept else ?kept)
       else ?kept)"
  have "force_replace q cands C b = map (requantify C) b'"
    unfolding force_replace_def Let_def b'_def cnd_def by (rule refl)
  moreover have "b' = map preferred_line ?picks \<or> b' = append_missing ?picks ?kept \<or> b' = ?kept"
    unfolding b'_def by (rule if_chain_cases)
  ultimately show ?thesis by blast
qed

lemma force_replace_distinct:
  assumes "distinct (map sku cands)" "distinct (map sku b)"
  shows "distinct (map sku (force_replace q cands C b))"
proof -
  let ?kept = "filter (\<lambda>x. sku x \<notin> set (map fst C)) b"
  let ?picks = "pickByKeywords q (normalizeQuery q) cands 3"
  have k: "distinct (map sku ?kept)" using assms(2) by (rule distinct_map_filter)
  have "distinct (map sku ?picks)" using assms(1) by (rule pickByKeywords_distinct)
  then have p: "distinct (map sku (map preferred_line ?picks))"
    by (simp only: map_sku_preferred)
  have a: "distinct (map sku (append_missing ?picks ?kept))"
    using k by (rule append_missing_distinct)
  from force_replace_shape [of q cands C b] obtain b' where
    b': "force_replace q cands C b = map (requantify C) b'"
        "b' = map preferred_line ?picks \<or> b' = append_missing ?picks ?kept \<or> b' = ?kept"
    by blast
  from b'(2) k p a have "distinct (map sku b')" by blast
  then show ?thesis by (simp only: b'(1) map_sku_requantify)
qed

lemma force_replace_origin:
  assumes "l \<in> set (force_replace q cands C b)"
  shows "(\<exists>x \<in> set b. map_of C (sku x) = None \<and> l = x)
         \<or> (\<exists>src \<in> set cands. l = requantify C (preferred_line src))"
proof -
  let ?kept = "filter (\<lambda>x. sku x \<notin> set (map fst C)) b"
  let ?picks = "pickByKeywords q (normalizeQuery q) cands 3"
  from force_replace_shape [of q cands C b] obtain b' where
    b': "force_replace q cands C b = map (requantify C) b'"
        "b' = map preferred_line ?picks \<or> b' = append_missing ?picks ?kept \<or> b' = ?kept"
    by blast
  from assms b'(1) obtain y where y: "l = requantify C y" "y \<in> set b'" by auto
  have "y \<in> set ?kept \<or> (\<exists>src \<in> set ?picks. y = preferred_line src)"
  proof -
    from b'(2) consider "b' = map preferred_line ?picks" | "b' = append_missing ?picks ?kept"
      | "b' = ?kept" by blast
    then show ?thesis
    proof cases
      case 1 with y(2) show ?thesis by (simp only: set_map) blast
    next
      case 2 with y(2) append_missing_origin [of y ?picks ?kept] show ?thesis by blast
    next
      case 3 with y(2) show ?thesis by blast
    qed
  qed
  then show ?thesis
  proof
    assume yk: "y \<in> set ?kept"
    then have yb: "y \<in> set b" and "sku y \<notin> fst ` set C" by simp_all
    then have none: "map_of C (sku y) = None" by (simp add: map_of_eq_None_iff)
    then have "l = y" using y(1) by (simp only: requantify_absent)
    with yb none show ?thesis by blast
  next
    assume "\<exists>src \<in> set ?picks. y = preferred_line src"
    with y(1) pickByKeywords_subset [of q "normalizeQuery q" cands 3] show ?thesis by blast
  qed
qed

lemma force_replace_empty:
  assumes "force_replace q cands C b = []"
  shows "pickByKeywords q (normalizeQuery q) cands 3 = []"
proof -
  let ?kept = "filter (\<lambda>x. sku x \<notin> set (map fst C)) b"
  let ?picks = "pickByKeywords q (normalizeQuery q) cands 3"
  show ?thesis
  proof (cases "?kept = []")
    case True
    then have "force_replace q cands C b = map (requantify C) (map preferred_line ?picks)"
      unfolding force_replace_def Let_def by simp
    with assms show ?thesis by simp
  next
    case False
    then have ne: "append_missing ?picks ?kept \<noteq> []"
      using append_missing_mono [of ?kept ?picks] by auto
    from force_replace_shape [of q cands C b] obtain b' where
      b': "force_replace q cands C b = map (requantify C) b'"
          "b' = map preferred_line ?picks \<or> b' = append_missing ?picks ?kept \<or> b' = ?kept"
      by blast
    from assms b'(1) have "b' = []" by simp
    with b'(2) ne False show ?thesis by auto
  qed
qed

lemma replace_path_ok:
  assumes cp: "cart_pos C" and cK: "\<And>c. c \<in> set cands \<Longrightarrow> sku c \<in> K"
    and ok: "list_all (line_ok K C P0 pin) (basket p)"
  shows "list_all (line_ok K C P0 pin) (basket (replace_path q cands C p))"
proof (cases "shouldForceReplace q C (basket p)")
  case False
  with ok show ?thesis by (simp add: replace_path_def)
next
  case True
  have "line_ok K C P0 pin l" if "l \<in> set (force_replace q cands C (basket p))" for l
    using force_replace_origin [OF that]
  proof
    assume "\<exists>x \<in> set (basket p). map_of C (sku x) = None \<and> l = x"
    with ok show ?thesis by (auto simp: list_all_iff)
  next
    assume "\<exists>src \<in> set cands. l = requantify C (preferred_line src)"
    then show ?thesis using cp cK by (auto intro: requantify_pick_ok)
  qed
  with True show ?thesis by (simp add: replace_path_def list_all_iff)
qed

lemma replace_path_distinct:
  "distinct (map sku cands) \<Longrightarrow> distinct (map sku (basket p))
   \<Longrightarrow> distinct (map sku (basket (replace_path q cands C p)))"
  by (simp add: replace_path_def force_replace_distinct)

lemma replace_path_add: "addIntent q \<Longrightarrow> replace_path q cands C p = p"
  by (simp add: replace_path_def shouldForceReplace_def Let_def)

lemma replace_path_empty:
  assumes "replaceIntent q" "\<not> addIntent q" "basket (replace_path q cands C p) = []"
  shows "pickByKeywords q (normalizeQuery q) cands 3 = []"
proof -
  have "shouldForceReplace q C (basket p)"
    using assms(1,2) by (simp add: shouldForceReplace_def Let_def)
  with assms(3) have "force_replace q cands C (basket p) = []" by (simp add: replace_path_def)
  then show ?thesis by (rule force_replace_empty)
qed

lemma restore_origin:
  assumes "l \<in> set (foldl (restore_step K M) b es)"
  shows "l \<in> set b \<or> (\<exists>s n src. (s, n) \<in> set es \<and> s \<in> K \<and> map_of M s = Some src
                          \<and> l = new_line (sku src) src n why_kept)"
proof -
  let ?G = "\<lambda>e l. \<exists>src. fst e \<in> K \<and> map_of M (fst e) = Some src
                     \<and> l = new_line (sku src) src (snd e) why_kept"
  have "l \<in> set b \<or> (\<exists>e \<in> set es. ?G e l)"
  proof (rule foldl_append_origin [where f = "restore_step K M" and G = ?G])
    fix b e
    show "restore_step K M b e = b \<or> (\<exists>l. ?G e l \<and> restore_step K M b e = b @ [l])"
      using restore_step_cases [of K M b e] by blast
  qed (rule assms)
  then show ?thesis
  proof
    assume "l \<in> set b" then show ?thesis ..
  next
    assume "\<exists>e \<in> set es. ?G e l"
    then obtain e src where e: "e \<in> set es" "fst e \<in> K" "map_of M (fst e) = Some src"
      "l = new_line (sku src) src (snd e) why_kept" by blast
    from e(1) have "(fst e, snd e) \<in> set es" by simp
    with e(2,3,4) show ?thesis by blast
  qed
qed

lemma restore_distinct_aux:
  assumes wf: "wf_bySku M"
  shows "distinct (map fst es) \<Longrightarrow> distinct (map sku b)
         \<Longrightarrow> \<forall>x \<in> set b. sku x \<notin> fst ` set es
         \<Longrightarrow> distinct (map sku (foldl (restore_step K M) b es))"
proof (induction es arbitrary: b)
  case Nil then show ?case by simp
next
  case (Cons e es)
  let ?b = "restore_step K M b e"
  have fe2: "fst e \<notin> fst ` set es" and des: "distinct (map fst es)"
    using Cons.prems(1) by simp_all
  have fe1: "\<forall>x \<in> set b. sku x \<noteq> fst e" and bes: "\<forall>x \<in> set b. sku x \<notin> fst ` set es"
    using Cons.prems(3) by simp_all
  have step: "distinct (map sku ?b) \<and> (\<forall>x \<in> set ?b. sku x \<notin> fst ` set es)"
    using restore_step_cases [of K M b e]
  proof
    assume "?b = b" with Cons.prems(2) bes show ?thesis by simp
  next
    assume "\<exists>l. (\<exists>src. fst e \<in> K \<and> map_of M (fst e) = Some src
                    \<and> l = new_line (sku src) src (snd e) why_kept) \<and> ?b = b @ [l]"
    then obtain src where s: "map_of M (fst e) = Some src"
      "?b = b @ [new_line (sku src) src (snd e) why_kept]" by blast
    have sk: "sku src = fst e" using wf s(1) by (rule wf_map_of_sku)
    have "fst e \<notin> sku ` set b" using fe1 by auto
    then have "distinct (map sku ?b)" using Cons.prems(2) by (simp add: s(2) sk)
    moreover have "\<forall>x \<in> set ?b. sku x \<notin> fst ` set es" using bes fe2 by (simp add: s(2) sk)
    ultimately show ?thesis ..
  qed
  have "distinct (map sku (foldl (restore_step K M) ?b es))"
    using des step by (intro Cons.IH) simp_all
  then show ?case by simp
qed

lemma restore_distinct:
  "wf_bySku M \<Longrightarrow> distinct (map fst es)
   \<Longrightarrow> distinct (map sku (foldl (restore_step K M) [] es))"
  by (rule restore_distinct_aux) simp_all

lemma preserve_origin:
  assumes "l \<in> set (foldl (preserve_step K M) b es)"
  shows "l \<in> set b \<or> (\<exists>s n src. (s, n) \<in> set es \<and> s \<in> K \<and> map_of M s = Some src
                          \<and> l = new_line (sku src) src n why_previous)"
proof -
  let ?G = "\<lambda>e l. \<exists>src. fst e \<in> K \<and> map_of M (fst e) = Some src
                     \<and> l = new_line (sku src) src (snd e) why_previous"
  have "l \<in> set b \<or> (\<exists>e \<in> set es. ?G e l)"
  proof (rule foldl_append_origin [where f = "preserve_step K M" and G = ?G])
    fix b e
    show "preserve_step K M b e = b \<or> (\<exists>l. ?G e l \<and> preserve_step K M b e = b @ [l])"
      using preserve_step_cases [of K M b e] by blast
  qed (rule assms)
  then show ?thesis
  proof
    assume "l \<in> set b" then show ?thesis ..
  next
    assume "\<exists>e \<in> set es. ?G e l"
    then obtain e src where e: "e \<in> set es" "fst e \<in> K" "map_of M (fst e) = Some src"
      "l = new_line (sku src) src (snd e) why_previous" by blast
    from e(1) have "(fst e, snd e) \<in> set es" by simp
    with e(2,3,4) show ?thesis by blast
  qed
qed

lemma preserve_mono: "set b \<subseteq> set (foldl (preserve_step K M) b es)"
  by (rule foldl_append_mono) (use preserve_step_cases in blast)

lemma preserve_distinct:
  assumes wf: "wf_bySku M"
  shows "distinct (map sku b) \<Longrightarrow> distinct (map sku (foldl (preserve_step K M) b es))"
proof (rule foldl_append_distinct)
  fix b e
  from preserve_step_cases [of K M b e]
  show "preserve_step K M b e = b
        \<or> (\<exists>l. sku l \<notin> sku ` set b \<and> preserve_step K M b e = b @ [l])"
  proof
    assume "preserve_step K M b e = b" then show ?thesis ..
  next
    assume "\<exists>l. (\<exists>src. fst e \<in> K \<and> \<not> has_sku (fst e) b \<and> map_of M (fst e) = Some src
                    \<and> l = new_line (sku src) src (snd e) why_previous)
                \<and> preserve_step K M b e = b @ [l]"
    then obtain src where s: "\<not> has_sku (fst e) b" "map_of M (fst e) = Some src"
      "preserve_step K M b e = b @ [new_line (sku src) src (snd e) why_previous]" by blast
    have "sku src = fst e" using wf s(2) by (rule wf_map_of_sku)
    with s(1,3) show ?thesis by (auto simp: has_sku_iff)
  qed
qed

lemma restored_line_ok:
  assumes "cart_pos C" "wf_bySku M" "(s, n) \<in> set C" "s \<in> K" "map_of M s = Some src"
  shows "line_ok K C P0 pin (new_line (sku src) src n w)"
proof -
  have "sku src = s" using assms(2,5) by (rule wf_map_of_sku)
  with assms(1,3,4) show ?thesis by (simp add: cart_line_ok)
qed

lemma empty_basket_handling_ok:
  assumes cp: "cart_pos C" and wf: "wf_bySku M"
    and nopick: "replaceIntent q \<and> \<not> addIntent q \<and> basket p = []
                 \<Longrightarrow> pickByKeywords q (normalizeQuery q) cands 3 = []"
    and ok: "list_all (line_ok K C P0 pin) (basket p)"
  shows "list_all (line_ok K C P0 pin) (basket (empty_basket_handling q cands K M C p))"
proof (cases "basket p = []")
  case False
  with ok show ?thesis by (simp add: empty_basket_handling_def)
next
  case True
  show ?thesis
  proof (cases "replaceIntent q \<and> \<not> addIntent q")
    case r: True
    with True nopick show ?thesis by (simp add: empty_basket_handling_def)
  next
    case r: False
    have "line_ok K C P0 pin l" if "l \<in> set (foldl (restore_step K M) [] C)" for l
      using restore_origin [OF that] cp wf by (auto intro: restored_line_ok)
    then have "list_all (line_ok K C P0 pin) (foldl (restore_step K M) [] C)"
      by (simp add: list_all_iff)
    with True r ok show ?thesis by (auto simp: empty_basket_handling_def)
  qed
qed

lemma empty_basket_handling_distinct:
  assumes cp: "cart_pos C" and wf: "wf_bySku M" and dc: "distinct (map sku cands)"
    and d: "distinct (map sku (basket p))"
  shows "distinct (map sku (basket (empty_basket_handling q cands K M C p)))"
proof -
  have "distinct (map sku (pickByKeywords q (normalizeQuery q) cands 3))"
    using dc by (rule pickByKeywords_distinct)
  then have 1: "distinct (map sku (map preferred_line (pickByKeywords q (normalizeQuery q) cands 3)))"
    by (simp only: map_sku_preferred)
  have 2: "distinct (map sku (foldl (restore_step K M) [] C))"
    using wf cp by (intro restore_distinct) (simp_all add: cart_pos_def)
  show ?thesis using 1 2 d by (simp add: empty_basket_handling_def del: map_map)
qed

lemma empty_basket_handling_nonempty:
  "basket p \<noteq> [] \<Longrightarrow> empty_basket_handling q cands K M C p = p"
  by (simp add: empty_basket_handling_def)

lemma preserve_cart_ok:
  assumes cp: "cart_pos C" and wf: "wf_bySku M"
    and ok: "list_all (line_ok K C P0 pin) (basket p)"
  shows "list_all (line_ok K C P0 pin) (basket (preserve_cart q K M C p))"
proof -
  have "line_ok K C P0 pin l" if "l \<in> set (foldl (preserve_step K M) (basket p) C)" for l
    using preserve_origin [OF that] cp wf ok
    by (auto simp: list_all_iff intro: restored_line_ok)
  then show ?thesis using ok by (simp add: preserve_cart_def list_all_iff)
qed

lemma preserve_cart_distinct:
  "wf_bySku M \<Longrightarrow> distinct (map sku (basket p))
   \<Longrightarrow> distinct (map sku (basket (preserve_cart q K M C p)))"
  by (simp add: preserve_cart_def preserve_distinct)

lemma preserve_cart_mono: "set (basket p) \<subseteq> set (basket (preserve_cart q K M C p))"
  by (simp add: preserve_cart_def preserve_mono)

lemma wf_ensure_spare: "wf_bySku M \<Longrightarrow> wf_bySku (snd (ensure_spare M products b))"
  by (simp add: ensure_spare_def wf_bySku_update split: option.splits)

lemma wf_add_path: "wf_bySku M \<Longrightarrow> wf_bySku (snd (add_path q C M products p))"
  by (simp add: add_path_def Let_def case_prod_beta wf_ensure_spare)

lemma oos_nudge_basket: "basket (fst (oos_nudge q products p reply)) = basket p"
  by (simp add: oos_nudge_def Let_def split: option.split)

lemma oos_nudge_upsell: "upsell (fst (oos_nudge q products p reply)) = upsell p"
  by (simp add: oos_nudge_def Let_def split: option.split)

lemma reconcile_parsed:
  "\<not> endIntent q \<Longrightarrow>
   reconcile q cart M products (Parsed r) =
     (let C = cartBySku_of cart; K = candidateSkus_of M; cands = candidates_of M;
          pa = (if addIntent q then add_path q C M products (validated M C r)
                else (validated M C r, M))
      in oos_nudge q products
           (preserve_cart q K (snd pa) C
              (empty_basket_handling q cands K (snd pa) C (replace_path q cands C (fst pa))))
           (or_else (raw_reply r) default_reply))"
  by (simp add: reconcile_def Let_def case_prod_beta)

lemma reconcile_basket:
  "\<not> endIntent q \<Longrightarrow>
   basket (fst (reconcile q cart M products (Parsed r))) =
     (let C = cartBySku_of cart; K = candidateSkus_of M; cands = candidates_of M;
          pa = (if addIntent q then add_path q C M products (validated M C r)
                else (validated M C r, M))
      in basket (preserve_cart q K (snd pa) C
              (empty_basket_handling q cands K (snd pa) C (replace_path q cands C (fst pa)))))"
  by (simp add: reconcile_parsed Let_def oos_nudge_basket)

lemma validated_ok:
  assumes "cart_pos C"
  shows "list_all (line_ok (candidateSkus_of M) C (set (basket (validated M C r))) pin)
           (basket (validated M C r))"
proof -
  let ?K = "candidateSkus_of M"
  let ?F = "filterToCandidates ?K (raw_basket r)"
  have b: "basket (validated M C r) = map (prefer_client_qty C) ?F"
    by (simp add: validated_def)
  have "line_ok ?K C (set (map (prefer_client_qty C) ?F)) pin (prefer_client_qty C x)"
    if "x \<in> set ?F" for x
    using assms filterToCandidates_sku [OF that] that by (intro validated_line_ok) simp_all
  then show ?thesis unfolding b by (simp add: list_all_iff)
qed

lemma validated_skus: "l \<in> set (basket (validated M C r)) \<Longrightarrow> sku l \<in> candidateSkus_of M"
  by (auto simp: validated_def dest: filterToCandidates_sku)

lemma reconcile_add_inv:
  assumes add: "addIntent q" and wf: "wf_bySku M"
  shows "ensured_inv (candidateSkus_of M) (cartBySku_of cart)
           (set (basket (validated M (cartBySku_of cart) r))) (pinned q products)
           (filter (\<lambda>it. sku it \<in> candidateSkus_of M) (basket (validated M (cartBySku_of cart) r)))
           (basket (fst (add_path q (cartBySku_of cart) M products
                           (validated M (cartBySku_of cart) r))))"
  using wf refl cart_pos_of
proof (rule add_path_inv)
  fix s assume "s = ''PTF-12'' \<or> s = ''REP-CORTA-001''" "s \<in> sku ` set products"
  with add show "pinned q products s" by (simp add: pinned_def)
next
  show "list_all (line_ok (candidateSkus_of M) (cartBySku_of cart)
          (set (basket (validated M (cartBySku_of cart) r))) (pinned q products))
          (basket (validated M (cartBySku_of cart) r))"
    using cart_pos_of by (rule validated_ok)
qed

lemma validated_filter:
  "filter (\<lambda>it. sku it \<in> candidateSkus_of M) (basket (validated M C r)) = basket (validated M C r)"
  by (simp add: validated_skus)

lemma reconcile_lines_ok:
  assumes ne: "\<not> endIntent q" and wf: "wf_bySku M"
  shows "list_all (line_ok (candidateSkus_of M) (cartBySku_of cart)
                     (set (basket (validated M (cartBySku_of cart) r))) (pinned q products))
           (basket (fst (reconcile q cart M products (Parsed r))))"
proof -
  let ?C = "cartBySku_of cart" and ?K = "candidateSkus_of M" and ?cands = "candidates_of M"
  let ?p0 = "validated M ?C r"
  let ?ok = "list_all (line_ok ?K ?C (set (basket ?p0)) (pinned q products))"
  have cp: "cart_pos ?C" by (rule cart_pos_of)
  have ok0: "?ok (basket ?p0)" using cp by (rule validated_ok)
  have cK: "\<And>c. c \<in> set ?cands \<Longrightarrow> sku c \<in> ?K" by (rule candidate_in_skus)
  show ?thesis
  proof (cases "addIntent q")
    case True
    let ?pa = "add_path q ?C M products ?p0"
    have ok1: "?ok (basket (fst ?pa))"
      using reconcile_add_inv [OF True wf, of cart r products] by (simp add: ensured_inv_def)
    have wf1: "wf_bySku (snd ?pa)" using wf by (rule wf_add_path)
    have r: "replace_path q ?cands ?C (fst ?pa) = fst ?pa" using True by (rule replace_path_add)
    have "?ok (basket (empty_basket_handling q ?cands ?K (snd ?pa) ?C (fst ?pa)))"
      using cp wf1 _ ok1 by (rule empty_basket_handling_ok) (simp add: True)
    then have "?ok (basket (preserve_cart q ?K (snd ?pa) ?C
                  (empty_basket_handling q ?cands ?K (snd ?pa) ?C (fst ?pa))))"
      using cp wf1 by (intro preserve_cart_ok)
    then show ?thesis
      unfolding reconcile_basket [OF ne] Let_def using True r by simp
  next
    case False
    let ?p2 = "replace_path q ?cands ?C ?p0"
    have ok2: "?ok (basket ?p2)" using cp cK ok0 by (rule replace_path_ok)
    have "?ok (basket (empty_basket_handling q ?cands ?K M ?C ?p2))"
      using cp wf _ ok2
    proof (rule empty_basket_handling_ok)
      assume "replaceIntent q \<and> \<not> addIntent q \<and> basket ?p2 = []"
      then show "pickByKeywords q (normalizeQuery q) ?cands 3 = []"
        by (intro replace_path_empty [of q ?cands ?C ?p0]) simp_all
    qed
    then have "?ok (basket (preserve_cart q ?K M ?C
                  (empty_basket_handling q ?cands ?K M ?C ?p2)))"
      using cp wf by (intro preserve_cart_ok)
    then show ?thesis
      unfolding reconcile_basket [OF ne] Let_def using False by simp
  qed
qed

lemma reconcile_distinct:
  assumes ne: "\<not> endIntent q" and wf: "wf_bySku M"
    and d0: "distinct (map sku (filterToCandidates (candidateSkus_of M) (raw_basket r)))"
  shows "distinct (map sku (basket (fst (reconcile q cart M products (Parsed r)))))"
proof -
  let ?C = "cartBySku_of cart" and ?K = "candidateSkus_of M" and ?cands = "candidates_of M"
  let ?p0 = "validated M ?C r"
  have cp: "cart_pos ?C" by (rule cart_pos_of)
  have dc: "distinct (map sku ?cands)" using wf by (rule wf_candidates_distinct)
  have "map sku (basket ?p0) = map sku (filterToCandidates ?K (raw_basket r))"
    by (simp add: validated_def comp_def)
  with d0 have dp0: "distinct (map sku (basket ?p0))" by simp
  show ?thesis
  proof (cases "addIntent q")
    case True
    let ?pa = "add_path q ?C M products ?p0"
    have d1: "distinct (map sku (basket (fst ?pa)))"
      using reconcile_add_inv [OF True wf, of cart r products] dp0
      by (simp add: ensured_inv_def validated_filter)
    have wf1: "wf_bySku (snd ?pa)" using wf by (rule wf_add_path)
    have r: "replace_path q ?cands ?C (fst ?pa) = fst ?pa" using True by (rule replace_path_add)
    have "distinct (map sku (basket (empty_basket_handling q ?cands ?K (snd ?pa) ?C (fst ?pa))))"
      using cp wf1 dc d1 by (rule empty_basket_handling_distinct)
    then have "distinct (map sku (basket (preserve_cart q ?K (snd ?pa) ?C
                  (empty_basket_handling q ?cands ?K (snd ?pa) ?C (fst ?pa)))))"
      using wf1 by (intro preserve_cart_distinct)
    then show ?thesis
      unfolding reconcile_basket [OF ne] Let_def using True r by simp
  next
    case False
    let ?p2 = "replace_path q ?cands ?C ?p0"
    have d2: "distinct (map sku (basket ?p2))" using dc dp0 by (rule replace_path_distinct)
    have "distinct (map sku (basket (empty_basket_handling q ?cands ?K M ?C ?p2)))"
      using cp wf dc d2 by (rule empty_basket_handling_distinct)
    then have "distinct (map sku (basket (preserve_cart q ?K M ?C
                  (empty_basket_handling q ?cands ?K M ?C ?p2))))"
      using wf by (intro preserve_cart_distinct)
    then show ?thesis
      unfolding reconcile_basket [OF ne] Let_def using False by simp
  qed
qed

lemma upsell_add_path: "upsell (fst (add_path q C M products p)) = upsell p"
  by (simp add: add_path_def Let_def case_prod_beta)

lemma upsell_replace_path: "upsell (replace_path q cands C p) = upsell p"
  by (simp add: replace_path_def)

lemma upsell_empty_basket_handling: "upsell (empty_basket_handling q cands K M C p) = upsell p"
  by (simp add: empty_basket_handling_def)

lemma upsell_preserve_cart: "upsell (preserve_cart q K M C p) = upsell p"
  by (simp add: preserve_cart_def)

lemma reconcile_upsell:
  "\<not> endIntent q \<Longrightarrow>
   upsell (fst (reconcile q cart M products (Parsed r)))
   = filterToCandidates (candidateSkus_of M) (raw_upsell r)"
  by (simp add: reconcile_parsed Let_def oos_nudge_upsell upsell_preserve_cart
        upsell_empty_basket_handling upsell_replace_path upsell_add_path validated_def)

lemma reconcile_not_parsed:
  "endIntent q \<or> gen = Malformed \<Longrightarrow>
   basket (fst (reconcile q cart M products gen)) = []
   \<and> upsell (fst (reconcile q cart M products gen)) = []"
  by (auto simp: reconcile_def Let_def end_plan_def fallback_plan_def)

lemma foldl_append_prefix:
  assumes step: "\<And>b e. f b e = b \<or> (\<exists>l. G e l \<and> f b e = b @ [l])"
  shows "\<exists>news. foldl f b es = b @ news \<and> (\<forall>l \<in> set news. \<exists>e \<in> set es. G e l)"
proof (induction es arbitrary: b)
  case Nil then show ?case by simp
next
  case (Cons e es)
  from Cons.IH [of "f b e"] obtain news where
    n: "foldl f (f b e) es = f b e @ news" "\<forall>l \<in> set news. \<exists>e \<in> set es. G e l" by blast
  from step [of b e] show ?case
  proof
    assume "f b e = b"
    with n have "foldl f b (e # es) = b @ news" by simp
    with n(2) show ?thesis by auto
  next
    assume "\<exists>l. G e l \<and> f b e = b @ [l]"
    then obtain l where l: "G e l" "f b e = b @ [l]" by blast
    with n have "foldl f b (e # es) = b @ (l # news)" by simp
    moreover have "\<forall>x \<in> set (l # news). \<exists>e' \<in> set (e # es). G e' x" using l(1) n(2) by auto
    ultimately show ?thesis by blast
  qed
qed

lemma append_missing_prefix:
  "\<exists>news. append_missing picks b = b @ news
          \<and> (\<forall>l \<in> set news. \<exists>src \<in> set picks. l = preferred_line src)"
  unfolding append_missing_def
  by (rule foldl_append_prefix [where G = "\<lambda>src l. l = preferred_line src"]) simp

lemma requantify_kept:
  "map (requantify C) (filter (\<lambda>x. sku x \<notin> set (map fst C)) b) = filter (\<lambda>x. sku x \<notin> set (map fst C)) b"
proof -
  have R: "requantify C x = x" if "x \<in> set (filter (\<lambda>x. sku x \<notin> set (map fst C)) b)" for x
  proof -
    from that have "sku x \<notin> fst ` set C" by simp
    then have "map_of C (sku x) = None" by (simp add: map_of_eq_None_iff)
    then show ?thesis by (rule requantify_absent)
  qed
  show ?thesis by (rule map_idI) (rule R)
qed

lemma force_replace_nil:
  assumes "filter (\<lambda>x. sku x \<notin> set (map fst C)) b = []"
  shows "force_replace q cands C b
         = map (\<lambda>src. requantify C (preferred_line src)) (pickByKeywords q (normalizeQuery q) cands 3)"
  unfolding force_replace_def Let_def using assms by (simp add: comp_def)

lemma force_replace_cons:
  assumes ne: "filter (\<lambda>x. sku x \<notin> set (map fst C)) b \<noteq> []"
  shows "\<exists>news. force_replace q cands C b
            = filter (\<lambda>x. sku x \<notin> set (map fst C)) b @ map (requantify C) news
          \<and> (\<forall>l \<in> set news. \<exists>src \<in> set (pickByKeywords q (normalizeQuery q) cands 3).
                 l = preferred_line src)"
proof -
  let ?kept = "filter (\<lambda>x. sku x \<notin> set (map fst C)) b"
  let ?picks = "pickByKeywords q (normalizeQuery q) cands 3"
  define cnd where "cnd = ((itest_any union_words q \<and> \<not> names_any union_words ?kept)
     \<or> (itest_any teflon_words q \<and> \<not> names_any teflon_words ?kept)
     \<or> (itest_any spare_words q \<and> \<not> names_any spare_words ?kept))"
  define b' where "b' = (if mentionsAlternates q
       then (if cnd then append_missing ?picks ?kept else ?kept) else ?kept)"
  have eq: "force_replace q cands C b = map (requantify C) b'"
    unfolding force_replace_def Let_def b'_def cnd_def
    by (simp only: length_0_conv ne if_False)
  from append_missing_prefix [of ?picks ?kept] obtain news where
    n: "append_missing ?picks ?kept = ?kept @ news"
       "\<forall>l \<in> set news. \<exists>src \<in> set ?picks. l = preferred_line src" by blast
  have "b' = ?kept @ news \<or> b' = ?kept @ []"
    unfolding b'_def n(1) by simp
  then show ?thesis
  proof
    assume "b' = ?kept @ news"
    then have "force_replace q cands C b = ?kept @ map (requantify C) news"
      unfolding eq by (simp only: map_append requantify_kept)
    with n(2) show ?thesis by blast
  next
    assume "b' = ?kept @ []"
    then have "force_replace q cands C b = ?kept @ map (requantify C) []"
      unfolding eq by (simp only: map_append requantify_kept)
    then show ?thesis by (intro exI [of _ "[]"]) simp
  qed
qed

lemma force_replace_cons_shape:
  assumes ne: "filter (\<lambda>x. sku x \<notin> set (map fst C)) b \<noteq> []"
  shows "force_replace q cands C b
           = map (requantify C) (append_missing (pickByKeywords q (normalizeQuery q) cands 3)
                                   (filter (\<lambda>x. sku x \<notin> set (map fst C)) b))
         \<or> force_replace q cands C b
           = map (requantify C) (filter (\<lambda>x. sku x \<notin> set (map fst C)) b)"
proof -
  let ?kept = "filter (\<lambda>x. sku x \<notin> set (map fst C)) b"
  let ?picks = "pickByKeywords q (normalizeQuery q) cands 3"
  define cnd where "cnd = ((itest_any union_words q \<and> \<not> names_any union_words ?kept)
     \<or> (itest_any teflon_words q \<and> \<not> names_any teflon_words ?kept)
     \<or> (itest_any spare_words q \<and> \<not> names_any spare_words ?kept))"
  define b' where "b' = (if mentionsAlternates q
       then (if cnd then append_missing ?picks ?kept else ?kept) else ?kept)"
  have eq: "force_replace q cands C b = map (requantify C) b'"
    unfolding force_replace_def Let_def b'_def cnd_def
    by (simp only: length_0_conv ne if_False)
  have "b' = append_missing ?picks ?kept \<or> b' = ?kept" unfolding b'_def by simp
  then show ?thesis unfolding eq by blast
qed

subsection \<open>Proposal lines outside the client cart\<close>

lemma kept_inv_init: "kept_inv C (set b) b"
  by (simp add: kept_inv_def)

lemma kept_inv_push:
  assumes k: "kept_inv C P0 b"
    and step: "b' = b \<or> (\<exists>l. (\<not> has_sku (sku l) b \<or> map_of C (sku l) \<noteq> None) \<and> b' = b @ [l])"
  shows "kept_inv C P0 b'"
  using step
proof
  assume "b' = b" with k show ?thesis by simp
next
  assume "\<exists>l. (\<not> has_sku (sku l) b \<or> map_of C (sku l) \<noteq> None) \<and> b' = b @ [l]"
  then obtain l where l: "\<not> has_sku (sku l) b \<or> map_of C (sku l) \<noteq> None" "b' = b @ [l]"
    by blast
  have "sku l \<notin> sku ` P0" if n: "map_of C (sku l) = None"
  proof
    assume "sku l \<in> sku ` P0"
    then obtain x where x: "x \<in> P0" "sku x = sku l" by auto
    with n k have "x \<in> set b" by (simp add: kept_inv_def)
    then have "sku x \<in> sku ` set b" by (rule imageI)
    then have "has_sku (sku l) b" unfolding x(2) by (simp only: has_sku_iff)
    with l(1) n show False by simp
  qed
  with k l(2) show ?thesis by (auto simp: kept_inv_def)
qed

lemma kept_inv_foldl:
  assumes step: "\<And>b e. f b e = b
      \<or> (\<exists>l. (\<not> has_sku (sku l) b \<or> map_of C (sku l) \<noteq> None) \<and> f b e = b @ [l])"
  shows "kept_inv C P0 b \<Longrightarrow> kept_inv C P0 (foldl f b es)"
proof (induction es arbitrary: b)
  case Nil then show ?case by simp
next
  case (Cons e es)
  have "kept_inv C P0 (f b e)" using Cons.prems step [of b e] by (rule kept_inv_push)
  then show ?case by (simp add: Cons.IH)
qed

lemma kept_inv_requantify:
  assumes "kept_inv C P0 b"
  shows "kept_inv C P0 (map (requantify C) b)"
proof -
  have 1: "x \<in> set (map (requantify C) b)" if "x \<in> P0" "map_of C (sku x) = None" for x
  proof -
    from assms that have "x \<in> set b" by (simp add: kept_inv_def)
    then have "requantify C x \<in> set (map (requantify C) b)" by simp
    then show ?thesis using that(2) by (simp only: requantify_absent)
  qed
  have 2: "l \<in> P0 \<or> sku l \<notin> sku ` P0"
    if "l \<in> set (map (requantify C) b)" "map_of C (sku l) = None" for l
  proof -
    from that(1) obtain x where x: "x \<in> set b" "l = requantify C x" by auto
    then have "map_of C (sku x) = None" using that(2) by simp
    then have "l = x" using x(2) by (simp add: requantify_absent)
    with x(1) that(2) assms show ?thesis by (simp add: kept_inv_def)
  qed
  from 1 2 show ?thesis unfolding kept_inv_def by blast
qed

lemma kept_inv_filter:
  assumes "kept_inv C P0 b" "\<And>x. x \<in> P0 \<Longrightarrow> map_of C (sku x) = None \<Longrightarrow> keep x"
  shows "kept_inv C P0 (filter keep b)"
  using assms unfolding kept_inv_def by auto

lemma kept_inv_empty:
  assumes "kept_inv C P0 []"
  shows "kept_inv C P0 b"
proof -
  have na: "map_of C (sku x) \<noteq> None" if "x \<in> P0" for x
    using assms that unfolding kept_inv_def by auto
  have "sku l \<notin> sku ` P0" if "map_of C (sku l) = None" for l
  proof
    assume "sku l \<in> sku ` P0"
    then obtain x where x: "x \<in> P0" "sku x = sku l" by auto
    from na [OF x(1)] have "map_of C (sku l) \<noteq> None" unfolding x(2) .
    with that show False by contradiction
  qed
  with na show ?thesis unfolding kept_inv_def by blast
qed

lemma add_path_kept:
  assumes wf: "wf_bySku M" and P: "\<And>x. x \<in> P0 \<Longrightarrow> sku x \<in> candidateSkus_of M"
    and k: "kept_inv C P0 (basket p)"
  shows "kept_inv C P0 (basket (fst (add_path q C M products p)))"
proof -
  let ?K = "candidateSkus_of M"
  let ?J = "kept_inv C P0"
  define e1 where "e1 = filter (\<lambda>it. sku it \<in> ?K) (basket p)"
  define e2 where "e2 = foldl (readd_cart_step ?K M) e1 C"
  define e3 where "e3 = (if itest_any spare_words q
                then pushIf (candidates_of M) is_cutter_spare why_spare e2 else e2)"
  define e4 where "e4 = (if itest_any teflon_words q
                then pushIf (candidates_of M) is_teflon why_teflon e3 else e3)"
  define e5 where "e5 = (if itest_any teflon_words q
                   \<and> \<not> list_ex (\<lambda>x. itest_any teflon_words (name x @ '' '' @ sku x)) e4
                then teflon_fallback products e4 else e4)"
  define B where "B = (if itest_any spare_words q \<and> map_of C ''CORTA-COBRE-001'' \<noteq> None
            \<and> \<not> has_sku ''REP-CORTA-001'' e5
         then fst (ensure_spare M products e5) else e5)"
  have B: "basket (fst (add_path q C M products p)) = B"
    unfolding add_path_basket Let_def B_def e5_def e4_def e3_def e2_def e1_def by (rule refl)
  have J1: "?J e1" unfolding e1_def using k P by (rule kept_inv_filter)
  have J2: "?J e2" unfolding e2_def
  proof (rule kept_inv_foldl [OF _ J1])
    fix b e
    from readd_step_cases [of ?K M b e]
    show "readd_cart_step ?K M b e = b
          \<or> (\<exists>l. (\<not> has_sku (sku l) b \<or> map_of C (sku l) \<noteq> None)
                \<and> readd_cart_step ?K M b e = b @ [l])"
    proof
      assume "readd_cart_step ?K M b e = b" then show ?thesis ..
    next
      assume "\<exists>l. (\<exists>src. fst e \<in> ?K \<and> \<not> has_sku (fst e) b \<and> map_of M (fst e) = Some src
             \<and> l = new_line (fst e) src (snd e) why_kept)
          \<and> readd_cart_step ?K M b e = b @ [l]"
      then obtain l src where l: "\<not> has_sku (fst e) b" "l = new_line (fst e) src (snd e) why_kept"
        "readd_cart_step ?K M b e = b @ [l]" by blast
      from l(1,2) have "\<not> has_sku (sku l) b" by simp
      with l(3) show ?thesis by blast
    qed
  qed
  have push: "?J (pushIf (candidates_of M) pred w b)" if "?J b" for pred w b
  proof (rule kept_inv_push [OF that])
    from pushIf_cases [of "candidates_of M" pred w b]
    show "pushIf (candidates_of M) pred w b = b
          \<or> (\<exists>l. (\<not> has_sku (sku l) b \<or> map_of C (sku l) \<noteq> None)
                \<and> pushIf (candidates_of M) pred w b = b @ [l])"
    proof
      assume "pushIf (candidates_of M) pred w b = b" then show ?thesis ..
    next
      assume "\<exists>pick. pick \<in> set (candidates_of M) \<and> pred pick \<and> \<not> has_sku (sku pick) b
        \<and> pushIf (candidates_of M) pred w b = b @ [new_line (sku pick) pick (JNum 1) w]"
      then obtain pick where pk: "\<not> has_sku (sku pick) b"
        "pushIf (candidates_of M) pred w b = b @ [new_line (sku pick) pick (JNum 1) w]" by blast
      from pk(1) have "\<not> has_sku (sku (new_line (sku pick) pick (JNum 1) w)) b" by simp
      with pk(2) show ?thesis by blast
    qed
  qed
  have J3: "?J e3" unfolding e3_def using J2 push by simp
  have J4: "?J e4" unfolding e4_def using J3 push by simp
  have J5: "?J e5"
  proof -
    have "?J (teflon_fallback products e4)"
    proof (rule kept_inv_push [OF J4])
      from teflon_fallback_cases [of products e4]
      show "teflon_fallback products e4 = e4
            \<or> (\<exists>l. (\<not> has_sku (sku l) e4 \<or> map_of C (sku l) \<noteq> None)
                  \<and> teflon_fallback products e4 = e4 @ [l])"
      proof
        assume "teflon_fallback products e4 = e4" then show ?thesis ..
      next
        assume "\<exists>t. t \<in> set products \<and> sku t = ''PTF-12'' \<and> \<not> has_sku (sku t) e4
          \<and> teflon_fallback products e4 = e4 @ [new_line (sku t) t (JNum 1) why_teflon]"
        then obtain t where t: "\<not> has_sku (sku t) e4"
          "teflon_fallback products e4 = e4 @ [new_line (sku t) t (JNum 1) why_teflon]" by blast
        from t(1) have "\<not> has_sku (sku (new_line (sku t) t (JNum 1) why_teflon)) e4" by simp
        with t(2) show ?thesis by blast
      qed
    qed
    with J4 show ?thesis unfolding e5_def by simp
  qed
  have JB: "?J B"
  proof (cases "itest_any spare_words q \<and> map_of C ''CORTA-COBRE-001'' \<noteq> None
            \<and> \<not> has_sku ''REP-CORTA-001'' e5")
    case False
    have "B = e5" unfolding B_def using False by auto
    with J5 show ?thesis by simp
  next
    case True
    have BT: "B = fst (ensure_spare M products e5)" unfolding B_def using True by simp
    have "?J (fst (ensure_spare M products e5))"
    proof (rule kept_inv_push [OF J5])
      from ensure_spare_cases [OF wf, of products e5]
      show "fst (ensure_spare M products e5) = e5
            \<or> (\<exists>l. (\<not> has_sku (sku l) e5 \<or> map_of C (sku l) \<noteq> None)
                  \<and> fst (ensure_spare M products e5) = e5 @ [l])"
      proof
        assume "fst (ensure_spare M products e5) = e5" then show ?thesis ..
      next
        assume "\<exists>rep. sku rep = ''REP-CORTA-001''
          \<and> (map_of M ''REP-CORTA-001'' = Some rep
              \<or> (map_of M ''REP-CORTA-001'' = None \<and> rep \<in> set products))
          \<and> fst (ensure_spare M products e5) = e5 @ [new_line (sku rep) rep (JNum 1) why_spare]"
        then obtain rep where r: "sku rep = ''REP-CORTA-001''"
          "fst (ensure_spare M products e5) = e5 @ [new_line (sku rep) rep (JNum 1) why_spare]"
          by blast
        have "\<not> has_sku (sku (new_line (sku rep) rep (JNum 1) why_spare)) e5"
          using True r(1) by simp
        with r(2) show ?thesis by blast
      qed
    qed
    with BT show ?thesis by simp
  qed
  with B show ?thesis by simp
qed

lemma append_missing_kept:
  "kept_inv C P0 b \<Longrightarrow> kept_inv C P0 (append_missing picks b)"
  unfolding append_missing_def
proof (rule kept_inv_foldl)
  fix b :: "line list" and src :: product
  have "\<not> has_sku (sku (preferred_line src)) b" if "\<not> has_sku (sku src) b"
    using that by simp
  then show "(if \<not> has_sku (sku src) b then b @ [preferred_line src] else b) = b
     \<or> (\<exists>l. (\<not> has_sku (sku l) b \<or> map_of C (sku l) \<noteq> None)
           \<and> (if \<not> has_sku (sku src) b then b @ [preferred_line src] else b) = b @ [l])"
    by (cases "has_sku (sku src) b") auto
qed

lemma replace_path_kept:
  assumes k: "kept_inv C P0 (basket p)"
  shows "kept_inv C P0 (basket (replace_path q cands C p))"
proof (cases "shouldForceReplace q C (basket p)")
  case False
  with k show ?thesis by (simp add: replace_path_def)
next
  case True
  let ?kept = "filter (\<lambda>x. sku x \<notin> set (map fst C)) (basket p)"
  have kk: "kept_inv C P0 ?kept"
    using k by (rule kept_inv_filter) (simp add: map_of_eq_None_iff)
  have "kept_inv C P0 (force_replace q cands C (basket p))"
  proof (cases "?kept = []")
    case True
    with kk have "kept_inv C P0 []" by simp
    then show ?thesis by (rule kept_inv_empty)
  next
    case False
    from force_replace_cons_shape [OF False, of q cands] show ?thesis
    proof
      assume e: "force_replace q cands C (basket p)
           = map (requantify C) (append_missing (pickByKeywords q (normalizeQuery q) cands 3) ?kept)"
      show ?thesis unfolding e using kk by (intro kept_inv_requantify append_missing_kept)
    next
      assume e: "force_replace q cands C (basket p) = map (requantify C) ?kept"
      show ?thesis unfolding e using kk by (rule kept_inv_requantify)
    qed
  qed
  with True show ?thesis by (simp add: replace_path_def)
qed

lemma empty_basket_handling_kept:
  assumes "kept_inv C P0 (basket p)"
  shows "kept_inv C P0 (basket (empty_basket_handling q cands K M C p))"
proof (cases "basket p = []")
  case True
  with assms have "kept_inv C P0 []" by simp
  then show ?thesis by (rule kept_inv_empty)
next
  case False
  with assms show ?thesis by (simp add: empty_basket_handling_nonempty)
qed

lemma preserve_cart_kept:
  assumes wf: "wf_bySku M" and k: "kept_inv C P0 (basket p)"
  shows "kept_inv C P0 (basket (preserve_cart q K M C p))"
proof -
  have "kept_inv C P0 (foldl (preserve_step K M) (basket p) C)"
  proof (rule kept_inv_foldl [OF _ k])
    fix b e
    from preserve_step_cases [of K M b e]
    show "preserve_step K M b e = b
          \<or> (\<exists>l. (\<not> has_sku (sku l) b \<or> map_of C (sku l) \<noteq> None)
                \<and> preserve_step K M b e = b @ [l])"
    proof
      assume "preserve_step K M b e = b" then show ?thesis ..
    next
      assume "\<exists>l. (\<exists>src. fst e \<in> K \<and> \<not> has_sku (fst e) b \<and> map_of M (fst e) = Some src
             \<and> l = new_line (sku src) src (snd e) why_previous)
          \<and> preserve_step K M b e = b @ [l]"
      then obtain l src where l: "\<not> has_sku (fst e) b" "map_of M (fst e) = Some src"
        "l = new_line (sku src) src (snd e) why_previous"
        "preserve_step K M b e = b @ [l]" by blast
      have "sku src = fst e" using wf l(2) by (rule wf_map_of_sku)
      with l(1,3) have "\<not> has_sku (sku l) b" by simp
      with l(4) show ?thesis by blast
    qed
  qed
  with k show ?thesis by (simp add: preserve_cart_def)
qed

lemma reconcile_kept:
  assumes ne: "\<not> endIntent q" and wf: "wf_bySku M"
  shows "kept_inv (cartBySku_of cart) (set (basket (validated M (cartBySku_of cart) r)))
           (basket (fst (reconcile q cart M products (Parsed r))))"
proof -
  let ?C = "cartBySku_of cart" and ?K = "candidateSkus_of M" and ?cands = "candidates_of M"
  let ?p0 = "validated M ?C r"
  let ?J = "kept_inv ?C (set (basket ?p0))"
  have k0: "?J (basket ?p0)" by (rule kept_inv_init)
  show ?thesis
  proof (cases "addIntent q")
    case True
    let ?pa = "add_path q ?C M products ?p0"
    have k1: "?J (basket (fst ?pa))"
      using wf validated_skus k0 by (rule add_path_kept)
    have wf1: "wf_bySku (snd ?pa)" using wf by (rule wf_add_path)
    have r: "replace_path q ?cands ?C (fst ?pa) = fst ?pa" using True by (rule replace_path_add)
    have "?J (basket (empty_basket_handling q ?cands ?K (snd ?pa) ?C (fst ?pa)))"
      using k1 by (rule empty_basket_handling_kept)
    then have "?J (basket (preserve_cart q ?K (snd ?pa) ?C
                  (empty_basket_handling q ?cands ?K (snd ?pa) ?C (fst ?pa))))"
      using wf1 by (intro preserve_cart_kept)
    then show ?thesis
      unfolding reconcile_basket [OF ne] Let_def using True r by simp
  next
    case False
    let ?p2 = "replace_path q ?cands ?C ?p0"
    have k2: "?J (basket ?p2)" using k0 by (rule replace_path_kept)
    then have "?J (basket (empty_basket_handling q ?cands ?K M ?C ?p2))"
      by (rule empty_basket_handling_kept)
    then have "?J (basket (preserve_cart q ?K M ?C
                  (empty_basket_handling q ?cands ?K M ?C ?p2)))"
      using wf by (intro preserve_cart_kept)
    then show ?thesis
      unfolding reconcile_basket [OF ne] Let_def using False by simp
  qed
qed

section \<open>Invariants of the returned plan\<close>

lemma line_ok_list:
  "list_all (line_ok K C P0 pin) b \<Longrightarrow> l \<in> set b \<Longrightarrow> line_ok K C P0 pin l"
  by (simp add: list_all_iff)

text \<open>C1 (amended). Every line of the returned basket has the SKU of a candidate, except the
  lines of the two pinned backfills of the add path: on an Add turn a line may carry
  \<^verbatim>\<open>PTF-12\<close> or \<^verbatim>\<open>REP-CORTA-001\<close>, fetched from the products table directly. Every
  line of the returned upsell has the SKU of a candidate.\<close>

theorem candidate_membership:
  "(\<forall>l \<in> set (basket (fst (reconcile q cart (bySku_of rows) products gen))).
       sku l \<in> candidateSkus_of (bySku_of rows)
       \<or> (addIntent q \<and> (sku l = ''PTF-12'' \<or> sku l = ''REP-CORTA-001'')
           \<and> sku l \<in> sku ` set products))
   \<and> (\<forall>l \<in> set (upsell (fst (reconcile q cart (bySku_of rows) products gen))).
       sku l \<in> candidateSkus_of (bySku_of rows))"
proof (cases "endIntent q \<or> gen = Malformed")
  case True
  then show ?thesis using reconcile_not_parsed [of q gen cart "bySku_of rows" products] by simp
next
  case False
  then obtain r where gen: "gen = Parsed r" and ne: "\<not> endIntent q" by (cases gen) auto
  let ?M = "bySku_of rows"
  have ok: "list_all (line_ok (candidateSkus_of ?M) (cartBySku_of cart)
              (set (basket (validated ?M (cartBySku_of cart) r))) (pinned q products))
              (basket (fst (reconcile q cart ?M products (Parsed r))))"
    using ne wf_bySku_of by (rule reconcile_lines_ok)
  have 1: "sku l \<in> candidateSkus_of ?M
       \<or> (addIntent q \<and> (sku l = ''PTF-12'' \<or> sku l = ''REP-CORTA-001'')
           \<and> sku l \<in> sku ` set products)"
    if "l \<in> set (basket (fst (reconcile q cart ?M products (Parsed r))))" for l
    using line_ok_list [OF ok that] by (simp add: line_ok_def pinned_def)
  have 2: "sku l \<in> candidateSkus_of ?M"
    if "l \<in> set (upsell (fst (reconcile q cart ?M products (Parsed r))))" for l
    using that by (simp add: reconcile_upsell [OF ne] filterToCandidates_sku)
  from 1 2 show ?thesis unfolding gen by blast
qed

theorem candidate_membership_witness:
  "map sku (basket (fst (reconcile ''dame teflon'' [\<lparr>cart_sku = ''CORTA-COBRE-001'', cart_qty = number 2\<rparr>]
        (bySku_of [cutter_row]) [tape_row] (Parsed (demo_proposal []))))) = [''CORTA-COBRE-001'', ''PTF-12'']
   \<and> list_all (\<lambda>l. sku l \<in> candidateSkus_of (bySku_of [cutter_row])
          \<or> (addIntent ''dame teflon'' \<and> (sku l = ''PTF-12'' \<or> sku l = ''REP-CORTA-001'')
              \<and> sku l \<in> sku ` set [tape_row]))
        (basket (fst (reconcile ''dame teflon'' [\<lparr>cart_sku = ''CORTA-COBRE-001'', cart_qty = number 2\<rparr>]
           (bySku_of [cutter_row]) [tape_row] (Parsed (demo_proposal [])))))"
proof -
  have h: "map sku (basket (fst (reconcile ''dame teflon'' [\<lparr>cart_sku = ''CORTA-COBRE-001'', cart_qty = number 2\<rparr>]
        (bySku_of [cutter_row]) [tape_row] (Parsed (demo_proposal []))))) = [''CORTA-COBRE-001'', ''PTF-12'']"
    by code_simp
  note T = candidate_membership [of "''dame teflon''" "[\<lparr>cart_sku = ''CORTA-COBRE-001'', cart_qty = number 2\<rparr>]"
      "[cutter_row]" "[tape_row]" "Parsed (demo_proposal [])"]
  show ?thesis unfolding list_all_iff by (intro conjI h T [THEN conjunct1])
qed

text \<open>With no sealing tape among the candidates, the pinned fallback puts \<^verbatim>\<open>PTF-12\<close>
  into the basket although it is no key of the candidate set.\<close>

theorem pinned_sku_counterexample:
  "map sku (basket (fst (reconcile ''dame teflon'' [] (bySku_of [cutter_row]) [tape_row]
        (Parsed (demo_proposal []))))) = [''PTF-12'']
   \<and> ''PTF-12'' \<notin> candidateSkus_of (bySku_of [cutter_row])"
  by code_simp

text \<open>The quantity of a returned line is an integer of at least 1 or \<^verbatim>\<open>NaN\<close>, and
  \<^verbatim>\<open>NaN\<close> only where the cart holds a quantity that is no number for the SKU or the line is a
  validated line of the proposal.\<close>

lemma quantity_floor_or_nan:
  assumes "l \<in> set (basket (fst (reconcile q cart (bySku_of rows) products gen)))"
  shows "(\<exists>n. qty l = number n \<and> 1 \<le> n)
         \<or> (qty l = JVal False JNaN
             \<and> (map_of (cartBySku_of cart) (sku l) = Some JNaN
                 \<or> (\<exists>r. gen = Parsed r
                       \<and> l \<in> set (basket (validated (bySku_of rows) (cartBySku_of cart) r)))))"
proof (cases "endIntent q \<or> gen = Malformed")
  case True
  then show ?thesis
    using reconcile_not_parsed [of q gen cart "bySku_of rows" products] assms by simp
next
  case False
  then obtain r where gen: "gen = Parsed r" and ne: "\<not> endIntent q" by (cases gen) auto
  let ?M = "bySku_of rows"
  have ok: "list_all (line_ok (candidateSkus_of ?M) (cartBySku_of cart)
              (set (basket (validated ?M (cartBySku_of cart) r))) (pinned q products))
              (basket (fst (reconcile q cart ?M products (Parsed r))))"
    using ne wf_bySku_of by (rule reconcile_lines_ok)
  have lk: "line_ok (candidateSkus_of ?M) (cartBySku_of cart)
              (set (basket (validated ?M (cartBySku_of cart) r))) (pinned q products) l"
    using ok assms unfolding gen by (rule line_ok_list)
  then obtain x where x: "floored x" "qty l = of_jsnum x" unfolding line_ok_def by blast
  from floored_cases [OF x(1)] show ?thesis
  proof
    assume "x = JNaN"
    with x(2) have n: "qty l = of_jsnum JNaN" by simp
    with lk have "map_of (cartBySku_of cart) (sku l) = Some JNaN
        \<or> l \<in> set (basket (validated ?M (cartBySku_of cart) r))"
      unfolding line_ok_def by blast
    moreover have "qty l = JVal False JNaN" using n by (simp add: of_jsnum_def)
    ultimately show ?thesis using gen by blast
  next
    assume "\<exists>n. x = JNum n \<and> 1 \<le> n"
    with x(2) show ?thesis by auto
  qed
qed

lemma handler_returns_nan:
  "handler ''hola'' [] (Inr odd_rows) [] (Parsed (demo_proposal [demo_line ''D'' ''Niple'' not_numeral]))
   = Ok200 \<lparr>title = None, steps = None, basket = [demo_line ''D'' ''Niple'' (JVal False JNaN)],
            upsell = [], confirm = None\<rparr> default_reply"
  by code_simp

text \<open>Quantities that are missing or numbers are floored at 1: with no truthy value that is
  no number in the cart and no value that is no number in the validated proposal, every
  returned line has a quantity of at least 1.\<close>

lemma cart_qty_of_NaN: "cart_qty_of ci = JNaN \<Longrightarrow> cart_qty ci = JVal True JNaN"
  by (auto simp: cart_qty_of_def number_or_one_def max_one_def
      split: jsvalue.splits jsnum.splits if_splits)

lemma cart_map_NaN:
  assumes "map_of (cartBySku_of cart) s = Some JNaN"
  shows "\<exists>ci \<in> set cart. cart_qty ci = JVal True JNaN"
proof -
  from assms obtain ci where ci: "find (\<lambda>ci. cart_sku ci = s) (rev cart) = Some ci"
    "cart_qty_of ci = JNaN"
    unfolding cartBySku_lookup by (cases "find (\<lambda>ci. cart_sku ci = s) (rev cart)") auto
  from ci(1) have "ci \<in> set (rev cart) \<and> cart_sku ci = s" by (rule find_SomeD)
  then have "ci \<in> set cart" by simp
  with cart_qty_of_NaN [OF ci(2)] show ?thesis by blast
qed

lemma numeric_quantities_floored:
  assumes nocart: "\<forall>ci \<in> set cart. cart_qty ci \<noteq> JVal True JNaN"
    and numeric: "\<forall>r. gen = Parsed r \<longrightarrow>
        (\<forall>x \<in> set (filterToCandidates (candidateSkus_of (bySku_of rows)) (raw_basket r)).
           \<forall>t. qty x \<noteq> JVal t JNaN)"
    and l: "l \<in> set (basket (fst (reconcile q cart (bySku_of rows) products gen)))"
  shows "\<exists>n. qty l = number n \<and> 1 \<le> n"
proof -
  let ?C = "cartBySku_of cart"
  have noNaN: "map_of ?C s \<noteq> Some JNaN" for s using cart_map_NaN [of cart s] nocart by blast
  from quantity_floor_or_nan [OF l] show ?thesis
  proof
    assume "\<exists>n. qty l = number n \<and> 1 \<le> n" then show ?thesis .
  next
    assume "qty l = JVal False JNaN
             \<and> (map_of ?C (sku l) = Some JNaN
                 \<or> (\<exists>r. gen = Parsed r \<and> l \<in> set (basket (validated (bySku_of rows) ?C r))))"
    with noNaN obtain r where r: "gen = Parsed r" "qty l = JVal False JNaN"
      "l \<in> set (basket (validated (bySku_of rows) ?C r))" by blast
    from r(3) obtain x where x: "x \<in> set (filterToCandidates (candidateSkus_of (bySku_of rows)) (raw_basket r))"
      "l = prefer_client_qty ?C x" unfolding validated_def by auto
    have nx: "number_nullish_one (qty x) \<noteq> JNaN"
      using numeric r(1) x(1) by (auto simp: number_nullish_one_def split: jsvalue.splits)
    have "max_one (case map_of ?C (sku x) of Some c \<Rightarrow> c | None \<Rightarrow> number_nullish_one (qty x)) \<noteq> JNaN"
      using nx noNaN [of "sku x"]
      by (auto simp: max_one_def split: option.splits jsnum.splits)
    then have "qty l \<noteq> of_jsnum JNaN"
      unfolding x(2) prefer_client_qty_def by simp
    with r(2) show ?thesis by (simp add: of_jsnum_def)
  qed
qed

lemma floored_examples:
  "map (\<lambda>l. (sku l, qty l)) (basket (fst (reconcile ''hola'' odd_cart (bySku_of odd_rows) []
        (Parsed odd_proposal))))
     = [(''D'', number 1), (''E'', number 1), (''A'', number 1), (''B'', number 1), (''C'', number 1)]"
  by code_simp

text \<open>C10. The claim that every line of the returned basket has a quantity of at least 1 does
  not hold of the source: \<^verbatim>\<open>Math.max(1, Number(x))\<close> is \<^verbatim>\<open>NaN\<close> when \<open>x\<close> is no number. A
  proposal line for the candidate \<^verbatim>\<open>D\<close> whose quantity is the string \<^verbatim>\<open>"dos"\<close> comes back with the
  quantity \<^verbatim>\<open>NaN\<close>, and so does the line of a cart entry whose quantity is that string.\<close>

theorem quantity_not_a_number:
  "map (\<lambda>l. (sku l, qty l)) (basket (fst (reconcile ''hola'' [] (bySku_of odd_rows) []
        (Parsed (demo_proposal [demo_line ''D'' ''Niple'' not_numeral])))))
     = [(''D'', JVal False JNaN)]
   \<and> map (\<lambda>l. (sku l, qty l)) (basket (fst (reconcile ''hola''
        [\<lparr>cart_sku = ''A'', cart_qty = not_numeral\<rparr>] (bySku_of odd_rows) []
        (Parsed (demo_proposal [])))))
     = [(''A'', JVal False JNaN)]
   \<and> (\<forall>n. JVal False JNaN \<noteq> number n)"
proof -
  have 1: "map (\<lambda>l. (sku l, qty l)) (basket (fst (reconcile ''hola'' [] (bySku_of odd_rows) []
        (Parsed (demo_proposal [demo_line ''D'' ''Niple'' not_numeral])))))
     = [(''D'', JVal False JNaN)]" by code_simp
  have 2: "map (\<lambda>l. (sku l, qty l)) (basket (fst (reconcile ''hola''
        [\<lparr>cart_sku = ''A'', cart_qty = not_numeral\<rparr>] (bySku_of odd_rows) []
        (Parsed (demo_proposal [])))))
     = [(''A'', JVal False JNaN)]" by code_simp
  have 3: "\<forall>n. JVal False JNaN \<noteq> number n" by (simp add: number_def)
  from 1 2 3 show ?thesis by (intro conjI)
qed

text \<open>When the validated basket of the proposal has no SKU twice, the returned basket has at
  most one line per SKU; the fallback and End plans have no line at all.\<close>

lemma distinct_skus_preserved:
  "(\<forall>r. gen = Parsed r \<longrightarrow>
        distinct (map sku (filterToCandidates (candidateSkus_of (bySku_of rows)) (raw_basket r))))
   \<Longrightarrow> distinct (map sku (basket (fst (reconcile q cart (bySku_of rows) products gen))))"
proof (cases "endIntent q \<or> gen = Malformed")
  case True
  then show ?thesis using reconcile_not_parsed [of q gen cart "bySku_of rows" products] by simp
next
  case False
  assume d: "\<forall>r. gen = Parsed r \<longrightarrow>
        distinct (map sku (filterToCandidates (candidateSkus_of (bySku_of rows)) (raw_basket r)))"
  from False obtain r where gen: "gen = Parsed r" and ne: "\<not> endIntent q" by (cases gen) auto
  from d gen have "distinct (map sku (filterToCandidates (candidateSkus_of (bySku_of rows)) (raw_basket r)))"
    by blast
  with ne wf_bySku_of show ?thesis unfolding gen by (rule reconcile_distinct)
qed

text \<open>C8. The claim that the returned basket has at most one line per SKU, also when the
  validated proposal has several lines with the same SKU, does not hold of the source: two
  proposal lines for the candidate \<^verbatim>\<open>D\<close> both pass the filter and both reach the caller, on
  a normal turn and on an Add turn alike. Every line that the server itself pushes is checked
  against the SKUs already in the basket; the proposal's own lines are not.\<close>

theorem duplicate_sku_reaches_caller:
  "map (\<lambda>l. (sku l, qty l)) (basket (fst (reconcile ''hola'' [] (bySku_of odd_rows) []
        (Parsed (demo_proposal [demo_line ''D'' ''Niple'' (number 1), demo_line ''D'' ''Niple'' (number 2)])))))
     = [(''D'', number 1), (''D'', number 2)]
   \<and> addIntent ''dame teflon''
   \<and> map (\<lambda>l. (sku l, qty l)) (basket (fst (reconcile ''dame teflon'' [] (bySku_of odd_rows) []
        (Parsed (demo_proposal [demo_line ''D'' ''Niple'' (number 1), demo_line ''D'' ''Niple'' (number 2)])))))
     = [(''D'', number 1), (''D'', number 2)]
   \<and> \<not> distinct [''D'', ''D'']"
  by code_simp

section \<open>Client quantities\<close>

lemma set_dedupe: "set (dedupe xs) = set xs"
proof (induction xs rule: dedupe.induct)
  case 1 show ?case by simp
next
  case (2 x xs)
  then show ?case by auto
qed

lemma handler_Ok200:
  assumes "handler q cart (Inr rows) products gen = Ok200 p reply"
  shows "p = fst (reconcile q cart (bySku_of (rows @ fetch_in (cartSkuList cart) products)) products gen)"
  using assms by (simp add: handler_def Let_def case_prod_beta split: if_splits)

lemma handler_answers:
  "q \<noteq> [] \<Longrightarrow>
   handler q cart (Inr rows) products gen
   = Ok200 (fst (reconcile q cart (bySku_of (rows @ fetch_in (cartSkuList cart) products)) products gen))
           (snd (reconcile q cart (bySku_of (rows @ fetch_in (cartSkuList cart) products)) products gen))"
  by (simp add: handler_def Let_def case_prod_beta)

lemma cart_sku_is_candidate:
  assumes "s \<in> cart_sku ` set cart" "s \<in> sku ` set products"
  shows "s \<in> candidateSkus_of (bySku_of (rows @ fetch_in (cartSkuList cart) products))"
proof -
  from assms(2) obtain p where p: "p \<in> set products" "sku p = s" by auto
  have "s \<in> set (cartSkuList cart)" using assms(1) by (simp add: cartSkuList_def set_dedupe)
  with p have "p \<in> set (fetch_in (cartSkuList cart) products)" by (simp add: fetch_in_def)
  with p(2) have "s \<in> sku ` set (rows @ fetch_in (cartSkuList cart) products)" by force
  then show ?thesis by (simp only: wf_candidateSkus [OF wf_bySku_of] bySku_of_keys)
qed

lemma prefer_client_qty_absent:
  "map_of C (sku x) = None \<Longrightarrow>
   prefer_client_qty C x = x\<lparr>qty := of_jsnum (max_one (number_nullish_one (qty x)))\<rparr>"
  by (simp add: prefer_client_qty_def)

lemma floor_nullish: "of_jsnum (max_one (number_nullish_one Nullish)) = number 1"
  by (simp add: number_nullish_one_def max_one_def)

lemma floor_number: "of_jsnum (max_one (number_nullish_one (JVal t (JNum k)))) = number (max 1 k)"
  by (simp add: number_nullish_one_def max_one_def)

lemma cart_qty_of_nullish: "cart_qty ci = Nullish \<Longrightarrow> cart_qty_of ci = JNum 1"
  by (simp add: cart_qty_of_def number_or_one_def max_one_def)

lemma cart_qty_of_number:
  "cart_qty ci = JVal t (JNum k) \<Longrightarrow> cart_qty_of ci = JNum (if t then max 1 k else 1)"
  by (simp add: cart_qty_of_def number_or_one_def max_one_def)

lemma validated_basket:
  "set (basket (validated M C r)) = prefer_client_qty C ` set (filterToCandidates (candidateSkus_of M) (raw_basket r))"
  by (simp add: validated_def)

lemma proposal_line_survives:
  assumes ne: "\<not> endIntent q" and wf: "wf_bySku M"
    and x: "x \<in> set (filterToCandidates (candidateSkus_of M) (raw_basket r))"
    and nc: "map_of (cartBySku_of cart) (sku x) = None"
  shows "x\<lparr>qty := of_jsnum (max_one (number_nullish_one (qty x)))\<rparr>
         \<in> set (basket (fst (reconcile q cart M products (Parsed r))))"
proof -
  let ?C = "cartBySku_of cart"
  have k: "kept_inv ?C (set (basket (validated M ?C r)))
             (basket (fst (reconcile q cart M products (Parsed r))))"
    using ne wf by (rule reconcile_kept)
  have "prefer_client_qty ?C x \<in> set (basket (validated M ?C r))"
    unfolding validated_basket using x by (rule imageI)
  moreover have "map_of ?C (sku (prefer_client_qty ?C x)) = None" using nc by simp
  ultimately have "prefer_client_qty ?C x \<in> set (basket (fst (reconcile q cart M products (Parsed r))))"
    using k unfolding kept_inv_def by blast
  then show ?thesis by (simp only: prefer_client_qty_absent [OF nc])
qed

lemma outside_cart_line:
  assumes ne: "\<not> endIntent q" and wf: "wf_bySku M"
    and l: "l \<in> set (basket (fst (reconcile q cart M products (Parsed r))))"
    and nc: "map_of (cartBySku_of cart) (sku l) = None"
  shows "(\<exists>x \<in> set (filterToCandidates (candidateSkus_of M) (raw_basket r)).
            l = x\<lparr>qty := of_jsnum (max_one (number_nullish_one (qty x)))\<rparr>)
         \<or> (qty l = number 1
             \<and> sku l \<notin> sku ` set (filterToCandidates (candidateSkus_of M) (raw_basket r)))"
proof -
  let ?C = "cartBySku_of cart" and ?F = "filterToCandidates (candidateSkus_of M) (raw_basket r)"
  let ?P0 = "set (basket (validated M ?C r))"
  have k: "kept_inv ?C ?P0 (basket (fst (reconcile q cart M products (Parsed r))))"
    using ne wf by (rule reconcile_kept)
  have ok: "list_all (line_ok (candidateSkus_of M) ?C ?P0 (pinned q products))
              (basket (fst (reconcile q cart M products (Parsed r))))"
    using ne wf by (rule reconcile_lines_ok)
  have lk: "line_ok (candidateSkus_of M) ?C ?P0 (pinned q products) l"
    using ok l by (rule line_ok_list)
  have skus: "sku ` ?P0 = sku ` set ?F"
    unfolding validated_basket by (simp add: image_image)
  show ?thesis
  proof (cases "l \<in> ?P0")
    case True
    then obtain x where x: "x \<in> set ?F" "l = prefer_client_qty ?C x"
      unfolding validated_basket by blast
    have "map_of ?C (sku x) = None" using nc unfolding x(2) by simp
    then have "l = x\<lparr>qty := of_jsnum (max_one (number_nullish_one (qty x)))\<rparr>"
      unfolding x(2) by (rule prefer_client_qty_absent)
    with x(1) show ?thesis by blast
  next
    case False
    with lk nc have "qty l = number 1" unfolding line_ok_def by blast
    moreover from k l nc False have "sku l \<notin> sku ` ?P0" unfolding kept_inv_def by blast
    ultimately show ?thesis unfolding skus by blast
  qed
qed

lemma cart_line_quantity:
  assumes ne: "\<not> endIntent q"
    and l: "l \<in> set (basket (fst (reconcile q cart
              (bySku_of (rows @ fetch_in (cartSkuList cart) products)) products (Parsed r))))"
    and ci: "find (\<lambda>ci. cart_sku ci = sku l) (rev cart) = Some ci"
    and n: "cart_qty_of ci = JNum n"
  shows "qty l = number n"
proof -
  let ?M = "bySku_of (rows @ fetch_in (cartSkuList cart) products)"
  let ?K = "candidateSkus_of ?M" and ?C = "cartBySku_of cart"
  have ok: "list_all (line_ok ?K ?C (set (basket (validated ?M ?C r))) (pinned q products))
              (basket (fst (reconcile q cart ?M products (Parsed r))))"
    using ne wf_bySku_of by (rule reconcile_lines_ok)
  have lk: "line_ok ?K ?C (set (basket (validated ?M ?C r))) (pinned q products) l"
    using ok l by (rule line_ok_list)
  have look: "map_of ?C (sku l) = Some (JNum n)"
    by (simp add: cartBySku_lookup ci n)
  have "ci \<in> set (rev cart) \<and> cart_sku ci = sku l" using ci by (rule find_SomeD)
  then have incart: "sku l \<in> cart_sku ` set cart" by force
  have "sku l \<in> ?K"
  proof (cases "sku l \<in> ?K")
    case True then show ?thesis .
  next
    case False
    with lk have "sku l \<in> sku ` set products" by (simp add: line_ok_def pinned_def)
    with incart show ?thesis by (rule cart_sku_is_candidate)
  qed
  with lk look show ?thesis unfolding line_ok_def by blast
qed

text \<open>C2 (amended). In the answer of the handler: a basket line whose SKU is in the client cart
  carries the quantity of the last cart entry with that SKU floored at 1, when that quantity
  is missing (then 1) or a number (a falsy one, the zero, counts as 1). On a turn that is not
  End, every validated proposal line whose SKU is not in the cart is in the returned basket
  with the proposal's quantity floored at 1, when that quantity is missing (then 1) or a
  number. And every returned line whose SKU is not in the cart is such a proposal line,
  unchanged but for the quantity, or it was added by the server with quantity 1 and the
  validated proposal has no line with its SKU. The candidate map is the one the handler
  builds, which holds every cart SKU known to the products table.\<close>

theorem client_quantity_wins:
  assumes "handler q cart (Inr rows) products gen = Ok200 p reply"
  shows "(\<forall>l \<in> set (basket p). \<forall>ci. find (\<lambda>ci. cart_sku ci = sku l) (rev cart) = Some ci \<longrightarrow>
            (cart_qty ci = Nullish \<longrightarrow> qty l = number 1)
            \<and> (\<forall>t k. cart_qty ci = JVal t (JNum k) \<longrightarrow> qty l = number (if t then max 1 k else 1)))
       \<and> (\<forall>r. gen = Parsed r \<and> \<not> endIntent q \<longrightarrow>
            (\<forall>x \<in> set (filterToCandidates
                         (candidateSkus_of (bySku_of (rows @ fetch_in (cartSkuList cart) products)))
                         (raw_basket r)).
               sku x \<notin> cart_sku ` set cart \<longrightarrow>
                 (qty x = Nullish \<longrightarrow> x\<lparr>qty := number 1\<rparr> \<in> set (basket p))
                 \<and> (\<forall>t k. qty x = JVal t (JNum k) \<longrightarrow> x\<lparr>qty := number (max 1 k)\<rparr> \<in> set (basket p))))
       \<and> (\<forall>l \<in> set (basket p). sku l \<notin> cart_sku ` set cart \<longrightarrow>
            (\<exists>r x. gen = Parsed r
                 \<and> x \<in> set (filterToCandidates
                              (candidateSkus_of (bySku_of (rows @ fetch_in (cartSkuList cart) products)))
                              (raw_basket r))
                 \<and> l = x\<lparr>qty := qty l\<rparr>
                 \<and> (qty x = Nullish \<longrightarrow> qty l = number 1)
                 \<and> (\<forall>t k. qty x = JVal t (JNum k) \<longrightarrow> qty l = number (max 1 k)))
            \<or> (qty l = number 1
                \<and> (\<forall>r. gen = Parsed r \<longrightarrow>
                      sku l \<notin> sku ` set (filterToCandidates
                              (candidateSkus_of (bySku_of (rows @ fetch_in (cartSkuList cart) products)))
                              (raw_basket r)))))"
proof (cases "endIntent q \<or> gen = Malformed")
  case True
  have e: "basket p = []"
    using True reconcile_not_parsed [of q gen cart _ products] handler_Ok200 [OF assms] by simp
  have n: "(gen = Parsed r \<and> \<not> endIntent q) = False" for r using True by auto
  show ?thesis by (simp add: e n)
next
  case False
  then obtain r where gen: "gen = Parsed r" and ne: "\<not> endIntent q" by (cases gen) auto
  let ?M = "bySku_of (rows @ fetch_in (cartSkuList cart) products)"
  let ?K = "candidateSkus_of ?M" and ?C = "cartBySku_of cart"
  let ?F = "filterToCandidates ?K (raw_basket r)"
  have p: "p = fst (reconcile q cart ?M products (Parsed r))"
    using handler_Ok200 [OF assms] gen by simp
  have wf: "wf_bySku ?M" by (rule wf_bySku_of)
  have none: "map_of ?C s = None" if "s \<notin> cart_sku ` set cart" for s
    using that by (simp add: map_of_eq_None_iff cartBySku_keys)
  have 1: "(cart_qty ci = Nullish \<longrightarrow> qty l = number 1)
           \<and> (\<forall>t k. cart_qty ci = JVal t (JNum k) \<longrightarrow> qty l = number (if t then max 1 k else 1))"
    if l: "l \<in> set (basket p)" and ci: "find (\<lambda>ci. cart_sku ci = sku l) (rev cart) = Some ci" for l ci
  proof -
    have q: "qty l = number n" if "cart_qty_of ci = JNum n" for n
      using ne l [unfolded p] ci that by (rule cart_line_quantity)
    have "qty l = number 1" if "cart_qty ci = Nullish"
      using that by (intro q cart_qty_of_nullish)
    moreover have "qty l = number (if t then max 1 k else 1)" if "cart_qty ci = JVal t (JNum k)" for t k
      using that by (intro q cart_qty_of_number)
    ultimately show ?thesis by blast
  qed
  have 2: "(qty x = Nullish \<longrightarrow> x\<lparr>qty := number 1\<rparr> \<in> set (basket p))
           \<and> (\<forall>t k. qty x = JVal t (JNum k) \<longrightarrow> x\<lparr>qty := number (max 1 k)\<rparr> \<in> set (basket p))"
    if x: "x \<in> set ?F" and nc: "sku x \<notin> cart_sku ` set cart" for x
  proof -
    have s: "x\<lparr>qty := of_jsnum (max_one (number_nullish_one (qty x)))\<rparr> \<in> set (basket p)"
      unfolding p using ne wf x none [OF nc] by (rule proposal_line_survives)
    have "x\<lparr>qty := number 1\<rparr> \<in> set (basket p)" if "qty x = Nullish"
      using s unfolding that floor_nullish .
    moreover have "x\<lparr>qty := number (max 1 k)\<rparr> \<in> set (basket p)" if "qty x = JVal t (JNum k)" for t k
      using s unfolding that floor_number .
    ultimately show ?thesis by blast
  qed
  have 3: "(\<exists>x. x \<in> set ?F \<and> l = x\<lparr>qty := qty l\<rparr>
                 \<and> (qty x = Nullish \<longrightarrow> qty l = number 1)
                 \<and> (\<forall>t k. qty x = JVal t (JNum k) \<longrightarrow> qty l = number (max 1 k)))
           \<or> (qty l = number 1 \<and> sku l \<notin> sku ` set ?F)"
    if l: "l \<in> set (basket p)" and nc: "sku l \<notin> cart_sku ` set cart" for l
  proof -
    from outside_cart_line [OF ne wf l [unfolded p] none [OF nc]] show ?thesis
    proof
      assume "\<exists>x \<in> set ?F. l = x\<lparr>qty := of_jsnum (max_one (number_nullish_one (qty x)))\<rparr>"
      then obtain x where x: "x \<in> set ?F"
        "l = x\<lparr>qty := of_jsnum (max_one (number_nullish_one (qty x)))\<rparr>" by blast
      have ql: "qty l = of_jsnum (max_one (number_nullish_one (qty x)))"
        by (subst x(2)) simp
      have "l = x\<lparr>qty := qty l\<rparr>" unfolding ql by (rule x(2))
      moreover have "qty l = number 1" if "qty x = Nullish"
        unfolding ql that by (rule floor_nullish)
      moreover have "qty l = number (max 1 k)" if "qty x = JVal t (JNum k)" for t k
        unfolding ql that by (rule floor_number)
      ultimately show ?thesis using x(1) by blast
    next
      assume "qty l = number 1 \<and> sku l \<notin> sku ` set ?F"
      then show ?thesis ..
    qed
  qed
  have c2: "\<forall>r'. gen = Parsed r' \<and> \<not> endIntent q \<longrightarrow>
            (\<forall>x \<in> set (filterToCandidates ?K (raw_basket r')).
               sku x \<notin> cart_sku ` set cart \<longrightarrow>
                 (qty x = Nullish \<longrightarrow> x\<lparr>qty := number 1\<rparr> \<in> set (basket p))
                 \<and> (\<forall>t k. qty x = JVal t (JNum k) \<longrightarrow> x\<lparr>qty := number (max 1 k)\<rparr> \<in> set (basket p)))"
    using 2 unfolding gen by (simp only: generated.inject) blast
  have c3: "\<forall>l \<in> set (basket p). sku l \<notin> cart_sku ` set cart \<longrightarrow>
            (\<exists>r' x. gen = Parsed r'
                 \<and> x \<in> set (filterToCandidates ?K (raw_basket r'))
                 \<and> l = x\<lparr>qty := qty l\<rparr>
                 \<and> (qty x = Nullish \<longrightarrow> qty l = number 1)
                 \<and> (\<forall>t k. qty x = JVal t (JNum k) \<longrightarrow> qty l = number (max 1 k)))
            \<or> (qty l = number 1
                \<and> (\<forall>r'. gen = Parsed r' \<longrightarrow>
                      sku l \<notin> sku ` set (filterToCandidates ?K (raw_basket r'))))"
  proof (intro ballI impI)
    fix l assume l: "l \<in> set (basket p)" "sku l \<notin> cart_sku ` set cart"
    from 3 [OF l] show "(\<exists>r' x. gen = Parsed r'
                 \<and> x \<in> set (filterToCandidates ?K (raw_basket r'))
                 \<and> l = x\<lparr>qty := qty l\<rparr>
                 \<and> (qty x = Nullish \<longrightarrow> qty l = number 1)
                 \<and> (\<forall>t k. qty x = JVal t (JNum k) \<longrightarrow> qty l = number (max 1 k)))
            \<or> (qty l = number 1
                \<and> (\<forall>r'. gen = Parsed r' \<longrightarrow>
                      sku l \<notin> sku ` set (filterToCandidates ?K (raw_basket r'))))"
    proof
      assume "\<exists>x. x \<in> set ?F \<and> l = x\<lparr>qty := qty l\<rparr>
                 \<and> (qty x = Nullish \<longrightarrow> qty l = number 1)
                 \<and> (\<forall>t k. qty x = JVal t (JNum k) \<longrightarrow> qty l = number (max 1 k))"
      with gen show ?thesis by blast
    next
      assume a: "qty l = number 1 \<and> sku l \<notin> sku ` set ?F"
      have "\<forall>r'. gen = Parsed r' \<longrightarrow> sku l \<notin> sku ` set (filterToCandidates ?K (raw_basket r'))"
        unfolding gen using a by (simp only: generated.inject) blast
      with a show ?thesis by blast
    qed
  qed
  from 1 have c1: "\<forall>l \<in> set (basket p). \<forall>ci. find (\<lambda>ci. cart_sku ci = sku l) (rev cart) = Some ci \<longrightarrow>
            (cart_qty ci = Nullish \<longrightarrow> qty l = number 1)
            \<and> (\<forall>t k. cart_qty ci = JVal t (JNum k) \<longrightarrow> qty l = number (if t then max 1 k else 1))"
    by blast
  show ?thesis by (rule conjI [OF c1 conjI [OF c2 c3]])
qed

theorem client_quantity_wins_witness:
  "(case handler ''dame teflon'' mixed_cart (Inr [demo_product ''D'' ''Niple'' 1]) [tape_row, cutter_row]
           (Parsed mixed_proposal) of
      Ok200 p _ \<Rightarrow> map (\<lambda>l. (sku l, qty l)) (basket p) | Failed _ _ \<Rightarrow> [])
     = [(''D'', number 4), (''CORTA-COBRE-001'', number 3), (''PTF-12'', number 1)]
   \<and> list_all (\<lambda>l. \<forall>ci. find (\<lambda>ci. cart_sku ci = sku l) (rev mixed_cart) = Some ci \<longrightarrow>
            (cart_qty ci = Nullish \<longrightarrow> qty l = number 1)
            \<and> (\<forall>t k. cart_qty ci = JVal t (JNum k) \<longrightarrow> qty l = number (if t then max 1 k else 1)))
        (basket (fst (reconcile ''dame teflon'' mixed_cart
           (bySku_of ([demo_product ''D'' ''Niple'' 1] @ fetch_in (cartSkuList mixed_cart) [tape_row, cutter_row]))
           [tape_row, cutter_row] (Parsed mixed_proposal))))
   \<and> (demo_line ''D'' ''Niple'' (number 4))\<lparr>qty := number (max 1 4)\<rparr>
       \<in> set (basket (fst (reconcile ''dame teflon'' mixed_cart
           (bySku_of ([demo_product ''D'' ''Niple'' 1] @ fetch_in (cartSkuList mixed_cart) [tape_row, cutter_row]))
           [tape_row, cutter_row] (Parsed mixed_proposal))))"
proof -
  let ?M = "bySku_of ([demo_product ''D'' ''Niple'' 1] @ fetch_in (cartSkuList mixed_cart) [tape_row, cutter_row])"
  let ?x = "demo_line ''D'' ''Niple'' (number 4)"
  have h: "(case handler ''dame teflon'' mixed_cart (Inr [demo_product ''D'' ''Niple'' 1]) [tape_row, cutter_row]
           (Parsed mixed_proposal) of
      Ok200 p _ \<Rightarrow> map (\<lambda>l. (sku l, qty l)) (basket p) | Failed _ _ \<Rightarrow> [])
     = [(''D'', number 4), (''CORTA-COBRE-001'', number 3), (''PTF-12'', number 1)]"
    by code_simp
  have q: "''dame teflon'' \<noteq> []" by simp
  have ne: "\<not> endIntent ''dame teflon''" by code_simp
  have xin: "?x \<in> set (filterToCandidates (candidateSkus_of ?M) (raw_basket mixed_proposal))"
    by code_simp
  have xnc: "sku ?x \<notin> cart_sku ` set mixed_cart" by code_simp
  have xq: "qty ?x = JVal True (JNum 4)" by (simp add: demo_line_def number_def)
  note T = client_quantity_wins [OF handler_answers [OF q, of mixed_cart "[demo_product ''D'' ''Niple'' 1]"
        "[tape_row, cutter_row]" "Parsed mixed_proposal"]]
  note T2 = T [THEN conjunct2, THEN conjunct1, THEN spec, THEN mp, OF conjI [OF refl ne],
      THEN bspec, OF xin, THEN mp, OF xnc, THEN conjunct2, THEN spec, THEN spec, THEN mp, OF xq]
  show ?thesis unfolding list_all_iff by (intro conjI h T [THEN conjunct1] T2)
qed

text \<open>A cart entry with quantity 0 comes back with quantity 1: the line does not carry the
  client cart's own quantity.\<close>

theorem cart_quantity_floor_counterexample:
  "cart_qty \<lparr>cart_sku = ''A'', cart_qty = number 0\<rparr> = number 0
   \<and> (case handler ''hola'' [\<lparr>cart_sku = ''A'', cart_qty = number 0\<rparr>] (Inr [demo_product ''A'' ''Codo'' 1]) [demo_product ''A'' ''Codo'' 1]
           (Parsed (demo_proposal [])) of
      Ok200 p _ \<Rightarrow> map (\<lambda>l. (sku l, qty l)) (basket p) | Failed _ _ \<Rightarrow> [])
     = [(''A'', number 1)]
   \<and> number 0 \<noteq> number 1"
  by code_simp

section \<open>Adding the spare part of the pipe cutter\<close>

lemma spare_utterance_intents:
  "addIntent spare_utterance" "\<not> endIntent spare_utterance" "itest_any spare_words spare_utterance"
  by code_simp+

lemma cutter_cart_map: "cartBySku_of cutter_cart = [(''CORTA-COBRE-001'', JNum 1)]"
  by code_simp

lemma add_turn_basket:
  assumes add: "addIntent q" and ne: "\<not> endIntent q"
    and nonempty: "basket (fst (add_path q (cartBySku_of cart) M products
                                   (validated M (cartBySku_of cart) r))) \<noteq> []"
  shows "set (basket (fst (add_path q (cartBySku_of cart) M products (validated M (cartBySku_of cart) r))))
         \<subseteq> set (basket (fst (reconcile q cart M products (Parsed r))))"
proof -
  let ?C = "cartBySku_of cart"
  let ?pa = "add_path q ?C M products (validated M ?C r)"
  have r: "replace_path q (candidates_of M) ?C (fst ?pa) = fst ?pa"
    using add by (rule replace_path_add)
  have e: "empty_basket_handling q (candidates_of M) (candidateSkus_of M) (snd ?pa) ?C (fst ?pa) = fst ?pa"
    using nonempty by (rule empty_basket_handling_nonempty)
  have "basket (fst (reconcile q cart M products (Parsed r)))
        = basket (preserve_cart q (candidateSkus_of M) (snd ?pa) ?C (fst ?pa))"
    unfolding reconcile_basket [OF ne] Let_def using add r e by simp
  then show ?thesis by (simp only: preserve_cart_mono)
qed

text \<open>C7 (amended). With the prior cart holding \<^verbatim>\<open>CORTA-COBRE-001\<close> at quantity 1, the
  utterance "si, dame el repuesto" (with i-acute), a proposal that parses and a candidate set
  that contains both \<^verbatim>\<open>REP-CORTA-001\<close> and \<^verbatim>\<open>CORTA-COBRE-001\<close>, the returned basket holds
  the cutter at quantity 1 and holds the spare part. Every validated line of the proposal for
  the spare part is in the returned basket with the proposal's quantity floored at 1, when
  that quantity is missing (then 1) or a number; every returned line for the spare part is
  such a proposal line, unchanged but for the quantity; and only when the validated proposal
  has no line for the spare part is the line the server's, with quantity 1.\<close>

theorem add_spare_to_cutter:
  assumes rep: "''REP-CORTA-001'' \<in> candidateSkus_of (bySku_of rows)"
    and cut: "''CORTA-COBRE-001'' \<in> candidateSkus_of (bySku_of rows)"
  shows "(\<exists>l \<in> set (basket (fst (reconcile spare_utterance cutter_cart (bySku_of rows) products (Parsed r)))).
            sku l = ''CORTA-COBRE-001'' \<and> qty l = number 1)
       \<and> (\<exists>l \<in> set (basket (fst (reconcile spare_utterance cutter_cart (bySku_of rows) products (Parsed r)))).
            sku l = ''REP-CORTA-001'')
       \<and> (\<forall>x \<in> set (filterToCandidates (candidateSkus_of (bySku_of rows)) (raw_basket r)).
            sku x = ''REP-CORTA-001'' \<longrightarrow>
              (qty x = Nullish \<longrightarrow> x\<lparr>qty := number 1\<rparr>
                 \<in> set (basket (fst (reconcile spare_utterance cutter_cart (bySku_of rows) products (Parsed r)))))
              \<and> (\<forall>t k. qty x = JVal t (JNum k) \<longrightarrow> x\<lparr>qty := number (max 1 k)\<rparr>
                 \<in> set (basket (fst (reconcile spare_utterance cutter_cart (bySku_of rows) products (Parsed r))))))
       \<and> (\<forall>l \<in> set (basket (fst (reconcile spare_utterance cutter_cart (bySku_of rows) products (Parsed r)))).
            sku l = ''REP-CORTA-001'' \<longrightarrow>
              (\<exists>x \<in> set (filterToCandidates (candidateSkus_of (bySku_of rows)) (raw_basket r)).
                  l = x\<lparr>qty := qty l\<rparr>
                  \<and> (qty x = Nullish \<longrightarrow> qty l = number 1)
                  \<and> (\<forall>t k. qty x = JVal t (JNum k) \<longrightarrow> qty l = number (max 1 k)))
              \<or> (qty l = number 1
                  \<and> ''REP-CORTA-001''
                      \<notin> sku ` set (filterToCandidates (candidateSkus_of (bySku_of rows)) (raw_basket r))))"
proof -
  let ?q = spare_utterance and ?M = "bySku_of rows"
  let ?K = "candidateSkus_of ?M" and ?C = "cartBySku_of cutter_cart"
  let ?F = "filterToCandidates ?K (raw_basket r)"
  let ?p0 = "validated ?M ?C r"
  let ?pa = "add_path ?q ?C ?M products ?p0"
  let ?B = "basket (fst (reconcile ?q cutter_cart ?M products (Parsed r)))"
  note add = spare_utterance_intents(1) and ne = spare_utterance_intents(2)
    and spare = spare_utterance_intents(3)
  have C: "?C = [(''CORTA-COBRE-001'', JNum 1)]" by (rule cutter_cart_map)
  have wf: "wf_bySku ?M" by (rule wf_bySku_of)
  have ok: "list_all (line_ok ?K ?C (set (basket ?p0)) (pinned ?q products)) ?B"
    using ne wf by (rule reconcile_lines_ok)
  have inv: "ensured_inv ?K ?C (set (basket ?p0)) (pinned ?q products)
               (filter (\<lambda>it. sku it \<in> ?K) (basket ?p0)) (basket (fst ?pa))"
    using add wf by (rule reconcile_add_inv)
  have hasrep: "has_sku ''REP-CORTA-001'' (basket (fst ?pa))"
    using wf refl spare _ rep by (rule add_path_has_spare) (simp add: C)
  then have nonempty: "basket (fst ?pa) \<noteq> []" by (auto simp: has_sku_iff)
  have sub: "set (basket (fst ?pa)) \<subseteq> set ?B" using add ne nonempty by (rule add_turn_basket)
  have "covered ?K ?C (basket (fst ?pa))" using inv by (simp add: ensured_inv_def)
  then have hascut: "has_sku ''CORTA-COBRE-001'' (basket (fst ?pa))"
    using cut by (simp add: covered_def C)
  have none: "map_of ?C ''REP-CORTA-001'' = None" by (simp add: C)
  have 1: "\<exists>l \<in> set ?B. sku l = ''CORTA-COBRE-001'' \<and> qty l = number 1"
  proof -
    from hascut sub obtain l where l: "l \<in> set ?B" "sku l = ''CORTA-COBRE-001''"
      by (auto simp: has_sku_iff)
    have "line_ok ?K ?C (set (basket ?p0)) (pinned ?q products) l" using ok l(1) by (rule line_ok_list)
    then have "qty l = number 1" using cut l(2) by (simp add: line_ok_def C)
    with l show ?thesis by blast
  qed
  have 2: "\<exists>l \<in> set ?B. sku l = ''REP-CORTA-001''"
    using hasrep sub by (auto simp: has_sku_iff)
  have 3: "(qty x = Nullish \<longrightarrow> x\<lparr>qty := number 1\<rparr> \<in> set ?B)
           \<and> (\<forall>t k. qty x = JVal t (JNum k) \<longrightarrow> x\<lparr>qty := number (max 1 k)\<rparr> \<in> set ?B)"
    if x: "x \<in> set ?F" "sku x = ''REP-CORTA-001''" for x
  proof -
    have nx: "map_of ?C (sku x) = None" unfolding x(2) by (rule none)
    have s: "x\<lparr>qty := of_jsnum (max_one (number_nullish_one (qty x)))\<rparr> \<in> set ?B"
      using ne wf x(1) nx by (rule proposal_line_survives)
    have "x\<lparr>qty := number 1\<rparr> \<in> set ?B" if "qty x = Nullish"
      using s unfolding that floor_nullish .
    moreover have "x\<lparr>qty := number (max 1 k)\<rparr> \<in> set ?B" if "qty x = JVal t (JNum k)" for t k
      using s unfolding that floor_number .
    ultimately show ?thesis by blast
  qed
  have 4: "(\<exists>x \<in> set ?F. l = x\<lparr>qty := qty l\<rparr>
                  \<and> (qty x = Nullish \<longrightarrow> qty l = number 1)
                  \<and> (\<forall>t k. qty x = JVal t (JNum k) \<longrightarrow> qty l = number (max 1 k)))
           \<or> (qty l = number 1 \<and> ''REP-CORTA-001'' \<notin> sku ` set ?F)"
    if l: "l \<in> set ?B" "sku l = ''REP-CORTA-001''" for l
  proof -
    have nl: "map_of ?C (sku l) = None" unfolding l(2) by (rule none)
    from outside_cart_line [OF ne wf l(1) nl] show ?thesis
    proof
      assume "\<exists>x \<in> set ?F. l = x\<lparr>qty := of_jsnum (max_one (number_nullish_one (qty x)))\<rparr>"
      then obtain x where x: "x \<in> set ?F"
        "l = x\<lparr>qty := of_jsnum (max_one (number_nullish_one (qty x)))\<rparr>" by blast
      have ql: "qty l = of_jsnum (max_one (number_nullish_one (qty x)))"
        by (subst x(2)) simp
      have "l = x\<lparr>qty := qty l\<rparr>" unfolding ql by (rule x(2))
      moreover have "qty l = number 1" if "qty x = Nullish"
        unfolding ql that by (rule floor_nullish)
      moreover have "qty l = number (max 1 k)" if "qty x = JVal t (JNum k)" for t k
        unfolding ql that by (rule floor_number)
      ultimately show ?thesis using x(1) by blast
    next
      assume "qty l = number 1 \<and> sku l \<notin> sku ` set ?F"
      then show ?thesis unfolding l(2) ..
    qed
  qed
  from 3 have c3: "\<forall>x \<in> set ?F. sku x = ''REP-CORTA-001'' \<longrightarrow>
              (qty x = Nullish \<longrightarrow> x\<lparr>qty := number 1\<rparr> \<in> set ?B)
              \<and> (\<forall>t k. qty x = JVal t (JNum k) \<longrightarrow> x\<lparr>qty := number (max 1 k)\<rparr> \<in> set ?B)"
    by blast
  from 4 have c4: "\<forall>l \<in> set ?B. sku l = ''REP-CORTA-001'' \<longrightarrow>
              (\<exists>x \<in> set ?F. l = x\<lparr>qty := qty l\<rparr>
                  \<and> (qty x = Nullish \<longrightarrow> qty l = number 1)
                  \<and> (\<forall>t k. qty x = JVal t (JNum k) \<longrightarrow> qty l = number (max 1 k)))
              \<or> (qty l = number 1 \<and> ''REP-CORTA-001'' \<notin> sku ` set ?F)"
    by blast
  show ?thesis by (rule conjI [OF 1 conjI [OF 2 conjI [OF c3 c4]]])
qed

theorem add_spare_to_cutter_witness:
  "''REP-CORTA-001'' \<in> candidateSkus_of (bySku_of [spare_row, cutter_row])
   \<and> ''CORTA-COBRE-001'' \<in> candidateSkus_of (bySku_of [spare_row, cutter_row])
   \<and> map (\<lambda>l. (sku l, qty l)) (basket (fst (reconcile spare_utterance cutter_cart
        (bySku_of [spare_row, cutter_row]) [] (Parsed (demo_proposal [])))))
      = [(''CORTA-COBRE-001'', number 1), (''REP-CORTA-001'', number 1)]
   \<and> list_ex (\<lambda>l. sku l = ''CORTA-COBRE-001'' \<and> qty l = number 1)
        (basket (fst (reconcile spare_utterance cutter_cart
           (bySku_of [spare_row, cutter_row]) [] (Parsed (demo_proposal [])))))
   \<and> map (\<lambda>l. (sku l, qty l)) (basket (fst (reconcile spare_utterance cutter_cart
        (bySku_of [spare_row, cutter_row]) []
        (Parsed (demo_proposal [demo_line ''REP-CORTA-001'' ''Disco de repuesto'' (number 3)])))))
      = [(''REP-CORTA-001'', number 3), (''CORTA-COBRE-001'', number 1)]
   \<and> (demo_line ''REP-CORTA-001'' ''Disco de repuesto'' (number 3))\<lparr>qty := number (max 1 3)\<rparr>
       \<in> set (basket (fst (reconcile spare_utterance cutter_cart
        (bySku_of [spare_row, cutter_row]) []
        (Parsed (demo_proposal [demo_line ''REP-CORTA-001'' ''Disco de repuesto'' (number 3)])))))"
proof -
  let ?x = "demo_line ''REP-CORTA-001'' ''Disco de repuesto'' (number 3)"
  have h1: "''REP-CORTA-001'' \<in> candidateSkus_of (bySku_of [spare_row, cutter_row])" by code_simp
  have h2: "''CORTA-COBRE-001'' \<in> candidateSkus_of (bySku_of [spare_row, cutter_row])" by code_simp
  have h3: "map (\<lambda>l. (sku l, qty l)) (basket (fst (reconcile spare_utterance cutter_cart
        (bySku_of [spare_row, cutter_row]) [] (Parsed (demo_proposal [])))))
      = [(''CORTA-COBRE-001'', number 1), (''REP-CORTA-001'', number 1)]" by code_simp
  have h4: "map (\<lambda>l. (sku l, qty l)) (basket (fst (reconcile spare_utterance cutter_cart
        (bySku_of [spare_row, cutter_row]) []
        (Parsed (demo_proposal [?x])))))
      = [(''REP-CORTA-001'', number 3), (''CORTA-COBRE-001'', number 1)]" by code_simp
  have xin: "?x \<in> set (filterToCandidates (candidateSkus_of (bySku_of [spare_row, cutter_row]))
                        (raw_basket (demo_proposal [?x])))" by code_simp
  have xs: "sku ?x = ''REP-CORTA-001''" by (simp add: demo_line_def)
  have xq: "qty ?x = JVal True (JNum 3)" by (simp add: demo_line_def number_def)
  note T = add_spare_to_cutter [OF h1 h2, of "[]" "demo_proposal []"]
  note U = add_spare_to_cutter [OF h1 h2, of "[]" "demo_proposal [?x]"]
  note U3 = U [THEN conjunct2, THEN conjunct2, THEN conjunct1, THEN bspec, OF xin, THEN mp, OF xs,
      THEN conjunct2, THEN spec, THEN spec, THEN mp, OF xq]
  show ?thesis unfolding list_ex_iff by (intro conjI h1 h2 h3 h4 T [THEN conjunct1] U3)
qed

text \<open>A proposal that lists the spare part with quantity 2 keeps that quantity; and a candidate set
  with the spare part but without the cutter returns a basket without the cutter.\<close>

theorem add_spare_to_cutter_counterexample:
  "''REP-CORTA-001'' \<in> candidateSkus_of (bySku_of [spare_row, cutter_row])
   \<and> map (\<lambda>l. (sku l, qty l)) (basket (fst (reconcile spare_utterance cutter_cart
        (bySku_of [spare_row, cutter_row]) []
        (Parsed (demo_proposal [demo_line ''REP-CORTA-001'' ''Disco de repuesto'' (number 2)])))))
      = [(''REP-CORTA-001'', number 2), (''CORTA-COBRE-001'', number 1)]
   \<and> ''REP-CORTA-001'' \<in> candidateSkus_of (bySku_of [spare_row])
   \<and> map (\<lambda>l. (sku l, qty l)) (basket (fst (reconcile spare_utterance cutter_cart
        (bySku_of [spare_row]) [] (Parsed (demo_proposal [])))))
      = [(''REP-CORTA-001'', number 1)]"
  by code_simp

section \<open>Strong replace path\<close>

text \<open>The strong replace path of the source triggers when the turn is no Add turn and either
  Replace was classified, or the pattern of line 384 matches the utterance while the basket at
  that point (the validated proposal basket) is not empty and all its SKUs are SKUs of the
  previous cart. When it triggers, the lines whose SKU is not in the previous cart stay in
  front, in order and unchanged, and every line after them is a pick of the keyword picker
  with cap 3, carrying the cart's quantity if its SKU is in the cart; if no line stays, the
  basket is exactly the picker's result. When it does not trigger, the plan is unchanged.\<close>

lemma replace_path_rule:
  "(shouldForceReplace q (cartBySku_of cart) (basket p) \<longleftrightarrow>
      \<not> addIntent q
      \<and> (replaceIntent q
          \<or> (mentionsAlternates q \<and> basket p \<noteq> []
              \<and> (\<forall>x \<in> set (basket p). sku x \<in> cart_sku ` set cart))))
   \<and> (shouldForceReplace q (cartBySku_of cart) (basket p) \<longrightarrow>
        (let kept = filter (\<lambda>x. sku x \<notin> cart_sku ` set cart) (basket p);
             picks = pickByKeywords q (normalizeQuery q) cands 3;
             out = basket (replace_path q cands (cartBySku_of cart) p)
         in take (length kept) out = kept
            \<and> (\<forall>l \<in> set (drop (length kept) out).
                  \<exists>src \<in> set picks. l = requantify (cartBySku_of cart) (preferred_line src))
            \<and> (kept = [] \<longrightarrow>
                  out = map (\<lambda>src. requantify (cartBySku_of cart) (preferred_line src)) picks)))
   \<and> (\<not> shouldForceReplace q (cartBySku_of cart) (basket p) \<longrightarrow>
        replace_path q cands (cartBySku_of cart) p = p)"
proof -
  let ?C = "cartBySku_of cart"
  let ?kept = "filter (\<lambda>x. sku x \<notin> cart_sku ` set cart) (basket p)"
  let ?picks = "pickByKeywords q (normalizeQuery q) cands 3"
  let ?out = "force_replace q cands ?C (basket p)"
  have keys: "set (map fst ?C) = cart_sku ` set cart" by (simp add: cartBySku_keys)
  have kept: "filter (\<lambda>x. sku x \<notin> set (map fst ?C)) (basket p) = ?kept"
    by (simp only: keys)
  have 1: "shouldForceReplace q ?C (basket p) \<longleftrightarrow>
      \<not> addIntent q
      \<and> (replaceIntent q
          \<or> (mentionsAlternates q \<and> basket p \<noteq> []
              \<and> (\<forall>x \<in> set (basket p). sku x \<in> cart_sku ` set cart)))"
    unfolding shouldForceReplace_def Let_def keys by (simp add: list_all_iff)
  have 2: "take (length ?kept) ?out = ?kept
            \<and> (\<forall>l \<in> set (drop (length ?kept) ?out).
                  \<exists>src \<in> set ?picks. l = requantify ?C (preferred_line src))
            \<and> (?kept = [] \<longrightarrow> ?out = map (\<lambda>src. requantify ?C (preferred_line src)) ?picks)"
  proof (cases "?kept = []")
    case True
    have "?out = map (\<lambda>src. requantify ?C (preferred_line src)) ?picks"
      using True by (intro force_replace_nil) (simp only: kept)
    with True show ?thesis by auto
  next
    case False
    then have "filter (\<lambda>x. sku x \<notin> set (map fst ?C)) (basket p) \<noteq> []"
      unfolding kept .
    from force_replace_cons [OF this, of q cands] obtain news where
      n: "?out = ?kept @ map (requantify ?C) news"
         "\<forall>l \<in> set news. \<exists>src \<in> set ?picks. l = preferred_line src"
      unfolding kept by blast
    have "take (length ?kept) ?out = ?kept" unfolding n(1) by simp
    moreover have "drop (length ?kept) ?out = map (requantify ?C) news" unfolding n(1) by simp
    ultimately show ?thesis using False n(2) by auto
  qed
  have 3: "shouldForceReplace q ?C (basket p) \<Longrightarrow> basket (replace_path q cands ?C p) = ?out"
    by (simp add: replace_path_def)
  have 4: "\<not> shouldForceReplace q ?C (basket p) \<Longrightarrow> replace_path q cands ?C p = p"
    by (simp add: replace_path_def)
  have 5: "take (length ?kept) (basket (replace_path q cands ?C p)) = ?kept
            \<and> (\<forall>l \<in> set (drop (length ?kept) (basket (replace_path q cands ?C p))).
                  \<exists>src \<in> set ?picks. l = requantify ?C (preferred_line src))
            \<and> (?kept = [] \<longrightarrow> basket (replace_path q cands ?C p)
                  = map (\<lambda>src. requantify ?C (preferred_line src)) ?picks)"
    if t: "shouldForceReplace q ?C (basket p)"
    unfolding 3 [OF t] by (rule 2)
  show ?thesis
    unfolding Let_def by (rule conjI [OF 1 conjI [OF impI [OF 5] impI [OF 4]]])
qed

text \<open>The pattern of line 384 against the vocabulary of the specification: they agree on
  every utterance that has neither the union with the o-acute nor the one with the i-acute.\<close>

lemma mentions_agree:
  assumes "\<not> str_includes (toLowerCase q) (''uni'' @ [CHR 0xF3] @ ''n'')"
    and "\<not> str_includes (toLowerCase q) (''un'' @ [CHR 0xED] @ ''on'')"
  shows "mentionsAlternates q = spec_mentions_alternates q"
  using assms
  unfolding mentionsAlternates_def spec_mentions_alternates_def itest_any_def test_any_def
    union_words_def union_terms_def keyword_groups_def
  by (simp del: str_includes.simps)

text \<open>With an empty validated basket the subset condition holds trivially, yet the source asks
  for a non-empty basket: the path does not trigger.\<close>

lemma empty_basket_no_trigger:
  "spec_force_replace ''teflon'' [\<lparr>cart_sku = ''PTF-12'', cart_qty = number 1\<rparr>] []
   \<and> \<not> shouldForceReplace ''teflon'' (cartBySku_of [\<lparr>cart_sku = ''PTF-12'', cart_qty = number 1\<rparr>]) []"
  by code_simp

text \<open>C5. The claim that the strong replace path triggers whenever the turn is no Add turn and
  the utterance mentions alternate vocabulary while the proposal's basket is within the
  previous cart does not hold of the source: the pattern of line 384 has the accent of the
  union on the wrong vowel, so the word as the keyword table of line 94 spells it is not
  recognised. With the coupling in the cart and in the proposal, the utterance "la union"
  with the o-acute names a union term, is neither Add nor Replace, and leaves the basket as
  it is; without the accent the same turn triggers the path and the picker puts the union
  into the basket.\<close>

theorem union_accent_not_recognised:
  "test_any union_terms (toLowerCase accented_union)
   \<and> \<not> addIntent accented_union \<and> \<not> replaceIntent accented_union
   \<and> list_all (\<lambda>x. sku x \<in> cart_sku ` set coupling_cart) [coupling_line]
   \<and> spec_force_replace accented_union coupling_cart [coupling_line]
   \<and> \<not> mentionsAlternates accented_union
   \<and> \<not> shouldForceReplace accented_union (cartBySku_of coupling_cart) [coupling_line]
   \<and> map (\<lambda>l. (sku l, qty l)) (basket (fst (reconcile accented_union coupling_cart
         (bySku_of coupling_rows) [] (Parsed (demo_proposal [coupling_line])))))
      = [(''PVC-CPL-075'', number 2)]
   \<and> shouldForceReplace ''la union'' (cartBySku_of coupling_cart) [coupling_line]
   \<and> map (\<lambda>l. (sku l, qty l)) (basket (fst (reconcile ''la union'' coupling_cart
         (bySku_of coupling_rows) [] (Parsed (demo_proposal [coupling_line])))))
      = [(''PVC-UNION-050'', number 1), (''PVC-CPL-075'', number 2)]"
  by code_simp

end
